theory Spec2Isabelle
  imports Complex_Main "HOL-Library.Signed_Division"
begin

section \<open>Arrays, allocation and results\<close>

text \<open>
  The embedding follows \<^verbatim>\<open>src/lsp.c\<close>. Conventions:
  \<^item> a finite C \<^verbatim>\<open>float\<close> is the \<open>real\<close> it denotes, and every floating-point operation
    of the source rounds its exact result: \<^verbatim>\<open>x - y\<close> is \<open>fl (x - y)\<close>. The rounding \<open>fl\<close> is
    a parameter of every function that computes with floats. \<open>fl32\<close> below is the rounding
    of IEEE 754 single precision (to nearest, ties to even, 24 significant bits, gradual
    underflow), and \<open>exact\<close> is no rounding at all. Overflow, infinities and an evaluation in
    a wider format are not modelled. The one place where the program makes a NaN out of
    finite numbers, \<^verbatim>\<open>acosf\<close> outside \<open>[-1, 1]\<close>, is kept: a cell of the caller's \<^verbatim>\<open>freq\<close>
    array is a \<open>real option\<close> and \<open>None\<close> is NaN. \<^verbatim>\<open>acosf\<close> and \<^verbatim>\<open>cosf\<close> return the rounded
    value of the exact function;
  \<^item> a C \<^verbatim>\<open>int\<close> is an \<open>int\<close> between \<open>-INT_MAX - 1\<close> and \<open>INT_MAX\<close>;
    \<^verbatim>\<open>order / 2\<close> truncates towards zero (\<open>sdiv\<close>). Where a sum or an increment of the
    source can leave that range for an \<^verbatim>\<open>int\<close> argument (\<^verbatim>\<open>order + 1\<close>, \<^verbatim>\<open>order * 4 + 2\<close>
    and \<^verbatim>\<open>k++\<close> in the bisection loop), the model stops with the error \<open>IntOverflow\<close>
    (undefined behaviour in C);
  \<^item> an array is a list whose length is the number of elements the pointer may address;
    every read and write is checked against it, and an access outside is the error
    \<open>OutOfBounds\<close> (undefined behaviour in C). Pointers that walk an array are indices;
  \<^item> \<^verbatim>\<open>malloc\<close> is decided by the parameter \<open>heap\<close>: for the requested number of
    elements it says whether the request fails and, if not, what the fresh cells hold. The
    theorems are for every \<open>heap\<close>, so none depends on the content of fresh memory. The
    answer depends on the size only, not on earlier requests;
  \<^item> a dereference of the null pointer, or of an offset from it, is the error \<open>NullDeref\<close>;
  \<^item> the \<^verbatim>\<open>while\<close> loop of the grid search takes fuel: the number of times its body may
    run. \<open>OutOfFuel\<close> says that the loop test still held when the fuel was used up.
\<close>

datatype error = OutOfBounds | NullDeref | OutOfFuel | IntOverflow

definition INT_MAX :: int where
  "INT_MAX = 2147483647"

definition rd :: "'a list \<Rightarrow> int \<Rightarrow> error + 'a" where
  "rd xs i = (if 0 \<le> i \<and> i < int (length xs) then Inr (xs ! nat i) else Inl OutOfBounds)"

definition wr :: "'a list \<Rightarrow> int \<Rightarrow> 'a \<Rightarrow> error + 'a list" where
  "wr xs i v = (if 0 \<le> i \<and> i < int (length xs) then Inr (xs[nat i := v]) else Inl OutOfBounds)"

text \<open>
  \<^verbatim>\<open>malloc(n * sizeof(float))\<close> for an \<^verbatim>\<open>int\<close> expression \<open>n\<close>. The product is computed in
  \<^verbatim>\<open>size_t\<close> (64 bits), so a negative \<open>n\<close> asks for more than the address space holds and
  the request fails. \<open>heap k = None\<close> says that a request for \<open>k\<close> elements fails, and
  \<open>heap k = Some cell\<close> that it succeeds with \<open>cell i\<close> in the fresh element \<open>i\<close>.
\<close>

type_synonym allocator = "nat \<Rightarrow> (nat \<Rightarrow> real) option"

definition malloc :: "allocator \<Rightarrow> int \<Rightarrow> real list option" where
  "malloc heap n =
     (if 0 \<le> n then
        (case heap (nat n) of None \<Rightarrow> None | Some cell \<Rightarrow> Some (map cell [0..<nat n]))
      else None)"

text \<open>
  The allocator that never fails and hands out zeroed cells, for the runs on concrete
  inputs.
\<close>

definition heap_ok :: allocator where
  "heap_ok n = Some (\<lambda>i. 0)"

section \<open>Single precision\<close>

text \<open>
  A rounding function: the float operations of the source are the exact operations followed
  by it.
\<close>

type_synonym rounding = "real \<Rightarrow> real"

definition exact :: rounding where
  "exact x = x"

text \<open>Rounding to the nearest integer, a tie to the even one.\<close>

definition rne :: "real \<Rightarrow> int" where
  "rne z = (let f = \<lfloor>z\<rfloor> in
     if z - of_int f < 1 / 2 then f
     else if 1 / 2 < z - of_int f then f + 1
     else if even f then f else f + 1)"

text \<open>The binary exponent of \<open>x \<noteq> 0\<close>: the \<open>e\<close> with \<open>2\<^sup>e \<le> |x| < 2\<^sup>e\<^sup>+\<^sup>1\<close>.\<close>

function bex :: "real \<Rightarrow> int" where
  "bex x = (if 2 \<le> \<bar>x\<bar> then bex (x / 2) + 1
            else if x \<noteq> 0 \<and> \<bar>x\<bar> < 1 then bex (2 * x) - 1 else 0)"
  by pat_completeness auto
termination
proof (relation "measure (\<lambda>x. nat \<bar>\<lfloor>log 2 \<bar>x\<bar>\<rfloor>\<bar>)")
  show "wf (measure (\<lambda>x. nat \<bar>\<lfloor>log 2 \<bar>x :: real\<bar>\<rfloor>\<bar>))" by simp
next
  fix x :: real assume a: "2 \<le> \<bar>x\<bar>"
  then have x: "0 < \<bar>x\<bar>" by linarith
  have "\<bar>x / 2\<bar> = \<bar>x\<bar> / 2" by simp
  then have "log 2 \<bar>x / 2\<bar> = log 2 \<bar>x\<bar> - log 2 2" using x by (simp add: log_divide)
  then have e: "log 2 \<bar>x / 2\<bar> = log 2 \<bar>x\<bar> - 1" by simp
  have "log 2 2 \<le> log 2 \<bar>x\<bar>" using a x by (subst log_le_cancel_iff) simp_all
  then have "1 \<le> log 2 \<bar>x\<bar>" by simp
  then have "1 \<le> \<lfloor>log 2 \<bar>x\<bar>\<rfloor>" by linarith
  moreover have "\<lfloor>log 2 \<bar>x / 2\<bar>\<rfloor> = \<lfloor>log 2 \<bar>x\<bar>\<rfloor> - 1" unfolding e by linarith
  ultimately have "nat \<bar>\<lfloor>log 2 \<bar>x / 2\<bar>\<rfloor>\<bar> < nat \<bar>\<lfloor>log 2 \<bar>x\<bar>\<rfloor>\<bar>" by linarith
  then show "(x / 2, x) \<in> measure (\<lambda>x. nat \<bar>\<lfloor>log 2 \<bar>x\<bar>\<rfloor>\<bar>)" by simp
next
  fix x :: real assume "\<not> 2 \<le> \<bar>x\<bar>" and a: "x \<noteq> 0 \<and> \<bar>x\<bar> < 1"
  then have x: "0 < \<bar>x\<bar>" by simp
  have "\<bar>2 * x\<bar> = 2 * \<bar>x\<bar>" by simp
  then have "log 2 \<bar>2 * x\<bar> = log 2 2 + log 2 \<bar>x\<bar>" using x by (simp add: log_mult)
  then have e: "log 2 \<bar>2 * x\<bar> = log 2 \<bar>x\<bar> + 1" by simp
  have "log 2 \<bar>x\<bar> < log 2 1" using a x by (subst log_less_cancel_iff) simp_all
  then have "log 2 \<bar>x\<bar> < 0" by simp
  then have "\<lfloor>log 2 \<bar>x\<bar>\<rfloor> \<le> - 1" by linarith
  moreover have "\<lfloor>log 2 \<bar>2 * x\<bar>\<rfloor> = \<lfloor>log 2 \<bar>x\<bar>\<rfloor> + 1" unfolding e by linarith
  ultimately have "nat \<bar>\<lfloor>log 2 \<bar>2 * x\<bar>\<rfloor>\<bar> < nat \<bar>\<lfloor>log 2 \<bar>x\<bar>\<rfloor>\<bar>" by linarith
  then show "(2 * x, x) \<in> measure (\<lambda>x. nat \<bar>\<lfloor>log 2 \<bar>x\<bar>\<rfloor>\<bar>)" by simp
qed

declare bex.simps [simp del]

text \<open>
  The exponent of the last place of the single-precision numbers around \<open>x\<close>: \<open>23\<close> below
  the binary exponent, and \<open>-149\<close> in the subnormal range.
\<close>

definition qexp :: "real \<Rightarrow> int" where
  "qexp x = max (bex x) (- 126) - 23"

text \<open>The single-precision number nearest to \<open>x\<close>.\<close>

definition fl32 :: rounding where
  "fl32 x = of_int (rne (x / 2 powi qexp x)) * 2 powi qexp x"

text \<open>
  What a grid step of \<open>delta\<close> is sure to take off a float in \<open>[-1, 1]\<close> in single precision:
  the difference \<open>xl - delta\<close> has magnitude at most \<open>1 + delta\<close> and is rounded by at most
  \<open>2\<^sup>-\<^sup>2\<^sup>4\<close> of that.
\<close>

definition step32 :: "real \<Rightarrow> real" where
  "step32 delta = delta - (1 + delta) / 16777216"

section \<open>cheb_poly_eva\<close>

text \<open>
  The first loop, \<^verbatim>\<open>for (i = 2; i <= order / 2; i++) *v++ = (2 * x) * (*u++) - *t++;\<close>.
  On entry to the iteration for \<open>i\<close> the pointers are \<open>t = T + i - 2\<close>, \<open>u = T + i - 1\<close>
  and \<open>v = T + i\<close>. The expression is two products and a difference, each rounded.
\<close>

function cheb_fill :: "rounding \<Rightarrow> real \<Rightarrow> int \<Rightarrow> int \<Rightarrow> real list \<Rightarrow> error + real list" where
  "cheb_fill fl x i m T =
     (if i \<le> m then
        (case rd T (i - 1) of Inl e \<Rightarrow> Inl e | Inr u \<Rightarrow>
         (case rd T (i - 2) of Inl e \<Rightarrow> Inl e | Inr t \<Rightarrow>
         (case wr T i (fl (fl (fl (2 * x) * u) - t)) of Inl e \<Rightarrow> Inl e | Inr T' \<Rightarrow>
           cheb_fill fl x (i + 1) m T')))
      else Inr T)"
  by pat_completeness auto
termination
  by (relation "measure (\<lambda>(fl, x, i, m, T). nat (m + 1 - i))") auto

declare cheb_fill.simps [simp del]

text \<open>
  The second loop,
  \<^verbatim>\<open>for (i = 0; i <= order / 2; i++) sum += coef[(order / 2) - i] * (*t++);\<close>, with
  \<open>t = T + i\<close>; \<open>acc\<close> is the variable \<^verbatim>\<open>sum\<close>.
\<close>

function cheb_sum :: "rounding \<Rightarrow> real list \<Rightarrow> real list \<Rightarrow> int \<Rightarrow> int \<Rightarrow> real \<Rightarrow> error + real" where
  "cheb_sum fl coef T i m acc =
     (if i \<le> m then
        (case rd coef (m - i) of Inl e \<Rightarrow> Inl e | Inr c \<Rightarrow>
         (case rd T i of Inl e \<Rightarrow> Inl e | Inr t \<Rightarrow>
           cheb_sum fl coef T (i + 1) m (fl (acc + fl (c * t)))))
      else Inr acc)"
  by pat_completeness auto
termination
  by (relation "measure (\<lambda>(fl, coef, T, i, m, acc). nat (m + 1 - i))") auto

declare cheb_sum.simps [simp del]

text \<open>
  \<^verbatim>\<open>static float cheb_poly_eva(float *coef, float x, int order)\<close>. A failed allocation
  returns \<^verbatim>\<open>0.0f\<close>. The two stores \<^verbatim>\<open>*t++ = 1.0f\<close> and \<^verbatim>\<open>*u++ = x\<close> go to \<open>T[0]\<close> and
  \<open>T[1]\<close> whatever \<open>order\<close> is.
\<close>

definition cheb_poly_eva :: "rounding \<Rightarrow> allocator \<Rightarrow> real list \<Rightarrow> real \<Rightarrow> int \<Rightarrow> error + real" where
  "cheb_poly_eva fl heap coef x order =
     (case malloc heap ((order sdiv 2) + 1) of
        None \<Rightarrow> Inr 0
      | Some T0 \<Rightarrow>
         (case wr T0 0 1 of Inl e \<Rightarrow> Inl e | Inr T1 \<Rightarrow>
          (case wr T1 1 x of Inl e \<Rightarrow> Inl e | Inr T2 \<Rightarrow>
          (case cheb_fill fl x 2 (order sdiv 2) T2 of Inl e \<Rightarrow> Inl e | Inr T \<Rightarrow>
            cheb_sum fl coef T 0 (order sdiv 2) 0))))"

text \<open>
  The Chebyshev polynomials as the specification gives them, in exact arithmetic:
  \<open>T\<^sub>0 = 1\<close>, \<open>T\<^sub>1 = x\<close>, \<open>T\<^sub>i = 2x T\<^sub>i\<^sub>-\<^sub>1 - T\<^sub>i\<^sub>-\<^sub>2\<close>.
\<close>

fun chebT :: "nat \<Rightarrow> real \<Rightarrow> real" where
  "chebT 0 x = 1"
| "chebT (Suc 0) x = x"
| "chebT (Suc (Suc n)) x = 2 * x * chebT (Suc n) x - chebT n x"


section \<open>lpc_to_lsp\<close>

subsection \<open>The coefficients of P' and Q'\<close>

text \<open>
  \<^verbatim>\<open>for (i = 1; i <= m; i++) { *px++ = a[i] + a[order + 1 - i] - *p++;
                                *qx++ = a[i] - a[order + 1 - i] + *q++; }\<close>
  with \<open>px = P + i\<close>, \<open>p = P + i - 1\<close>, \<open>qx = Q + i\<close> and \<open>q = Q + i - 1\<close>.
\<close>

function pq_fill ::
  "rounding \<Rightarrow> real list \<Rightarrow> int \<Rightarrow> int \<Rightarrow> int \<Rightarrow> real list \<Rightarrow> real list \<Rightarrow> error + real list \<times> real list"
where
  "pq_fill fl a order i m P Q =
     (if i \<le> m then
        (case rd a i of Inl e \<Rightarrow> Inl e | Inr ai \<Rightarrow>
         (case rd a (order + 1 - i) of Inl e \<Rightarrow> Inl e | Inr aj \<Rightarrow>
         (case rd P (i - 1) of Inl e \<Rightarrow> Inl e | Inr p \<Rightarrow>
         (case wr P i (fl (fl (ai + aj) - p)) of Inl e \<Rightarrow> Inl e | Inr P' \<Rightarrow>
         (case rd Q (i - 1) of Inl e \<Rightarrow> Inl e | Inr q \<Rightarrow>
         (case wr Q i (fl (fl (ai - aj) + q)) of Inl e \<Rightarrow> Inl e | Inr Q' \<Rightarrow>
           pq_fill fl a order (i + 1) m P' Q'))))))
      else Inr (P, Q))"
  by pat_completeness auto
termination
  by (relation "measure (\<lambda>(fl, a, order, i, m, P, Q). nat (m + 1 - i))") auto

declare pq_fill.simps [simp del]

text \<open>
  \<^verbatim>\<open>for (i = 0; i < m; i++) { *px = 2 * *px; *qx = 2 * *qx; px++; qx++; }\<close>
  with \<open>px = P + i\<close> and \<open>qx = Q + i\<close>.
\<close>

function pq_double :: "rounding \<Rightarrow> int \<Rightarrow> int \<Rightarrow> real list \<Rightarrow> real list \<Rightarrow> error + real list \<times> real list" where
  "pq_double fl i m P Q =
     (if i < m then
        (case rd P i of Inl e \<Rightarrow> Inl e | Inr p \<Rightarrow>
         (case wr P i (fl (2 * p)) of Inl e \<Rightarrow> Inl e | Inr P' \<Rightarrow>
         (case rd Q i of Inl e \<Rightarrow> Inl e | Inr q \<Rightarrow>
         (case wr Q i (fl (2 * q)) of Inl e \<Rightarrow> Inl e | Inr Q' \<Rightarrow>
           pq_double fl (i + 1) m P' Q'))))
      else Inr (P, Q))"
  by pat_completeness auto
termination
  by (relation "measure (\<lambda>(fl, i, m, P, Q). nat (m - i))") auto

declare pq_double.simps [simp del]

text \<open>Lines 162 to 185: \<open>m = order / 2\<close>, the two stores of \<open>1.0f\<close> and the two loops.\<close>

definition lpc_pq ::
  "rounding \<Rightarrow> real list \<Rightarrow> int \<Rightarrow> real list \<Rightarrow> real list \<Rightarrow> error + real list \<times> real list"
where
  "lpc_pq fl a order P0 Q0 =
     (case wr P0 0 1 of Inl e \<Rightarrow> Inl e | Inr P1 \<Rightarrow>
      (case wr Q0 0 1 of Inl e \<Rightarrow> Inl e | Inr Q1 \<Rightarrow>
      (case pq_fill fl a order 1 (order sdiv 2) P1 Q1 of Inl e \<Rightarrow> Inl e | Inr (P2, Q2) \<Rightarrow>
        pq_double fl 0 (order sdiv 2) P2 Q2)))"

subsection \<open>The root search\<close>

text \<open>
  The locals of \<^verbatim>\<open>lpc_to_lsp\<close> that live across loop iterations. \<open>psumr\<close>, \<open>psumm\<close>,
  \<open>temp_psumr\<close> and \<open>temp_xr\<close> are assigned and used within one iteration and are bound
  where they are computed. \<open>psuml\<close> has no initial value in C and is assigned at the top of
  every iteration of the outer loop.
\<close>

record search =
  xl :: real
  xr :: real
  xm :: real
  psuml :: real
  roots :: int
  flag :: bool
  freq :: "real option list"

text \<open>
  The body of \<^verbatim>\<open>for (k = 0; k <= nb; k++)\<close>: one bisection of \<open>[xr, xl]\<close>. The midpoint
  \<^verbatim>\<open>(xl + xr) / 2\<close> is a sum and a quotient, each rounded, and the test
  \<^verbatim>\<open>psumm * psuml > 0.0f\<close> is on the rounded product.
\<close>

definition bisect_step ::
  "rounding \<Rightarrow> allocator \<Rightarrow> real list \<Rightarrow> int \<Rightarrow> search \<Rightarrow> error + search"
where
  "bisect_step fl heap pt order s =
     (let mid = fl (fl (xl s + xr s) / 2) in
      (case cheb_poly_eva fl heap pt mid order of Inl e \<Rightarrow> Inl e
      | Inr psumm \<Rightarrow>
          if fl (psumm * psuml s) > 0
          then Inr (s\<lparr>xm := mid, psuml := psumm, xl := mid\<rparr>)
          else Inr (s\<lparr>xm := mid, xr := mid\<rparr>)))"

text \<open>
  \<^verbatim>\<open>for (k = 0; k <= nb; k++)\<close>. After the body has run with \<open>k = INT_MAX\<close>, which happens
  for \<open>nb = INT_MAX\<close> only, the increment overflows.
\<close>

function bisect ::
  "rounding \<Rightarrow> allocator \<Rightarrow> real list \<Rightarrow> int \<Rightarrow> int \<Rightarrow> int \<Rightarrow> search \<Rightarrow> error + search"
where
  "bisect fl heap pt order k nb s =
     (if k \<le> nb then
        (case bisect_step fl heap pt order s of Inl e \<Rightarrow> Inl e
         | Inr s' \<Rightarrow>
             if INT_MAX \<le> k then Inl IntOverflow
             else bisect fl heap pt order (k + 1) nb s')
      else Inr s)"
  by pat_completeness auto
termination
  by (relation "measure (\<lambda>(fl, heap, pt, order, k, nb, s). nat (nb + 1 - k))") auto

declare bisect.simps [simp del]

text \<open>
  \<^verbatim>\<open>while (flag && (xr >= -1.0f))\<close> for the root index \<open>j\<close>. The first argument after the
  rounding is the fuel. \<^verbatim>\<open>xr = xl - delta\<close> is a rounded difference and the test
  \<^verbatim>\<open>(psumr * psuml) < 0.0f\<close> is on the rounded product. When a bracket is found the root
  is counted, bisected and stored in \<open>freq[j]\<close>, and \<open>flag = 0\<close> ends the loop at its next
  test.
\<close>

fun grid ::
  "rounding \<Rightarrow> nat \<Rightarrow> allocator \<Rightarrow> real list \<Rightarrow> int \<Rightarrow> int \<Rightarrow> real \<Rightarrow> int \<Rightarrow> search
     \<Rightarrow> error + search"
where
  "grid fl 0 heap pt order nb delta j s =
     (if flag s \<and> xr s \<ge> - 1 then Inl OutOfFuel else Inr s)"
| "grid fl (Suc n) heap pt order nb delta j s =
     (if flag s \<and> xr s \<ge> - 1 then
        (let s1 = s\<lparr>xr := fl (xl s - delta)\<rparr> in
         (case cheb_poly_eva fl heap pt (xr s1) order of Inl e \<Rightarrow> Inl e
         | Inr psumr \<Rightarrow>
             if fl (psumr * psuml s1) < 0 \<or> psumr = 0 then
               (case bisect fl heap pt order 0 nb (s1\<lparr>roots := roots s1 + 1\<rparr>) of Inl e \<Rightarrow> Inl e
                | Inr s2 \<Rightarrow>
                   (case wr (freq s2) j (Some (xm s2)) of Inl e \<Rightarrow> Inl e
                    | Inr f \<Rightarrow>
                       grid fl n heap pt order nb delta j
                         (s2\<lparr>freq := f, xl := xm s2, flag := False\<rparr>)))
             else grid fl n heap pt order nb delta j (s1\<lparr>psuml := psumr, xl := xr s1\<rparr>)))
      else Inr s)"

declare grid.simps [simp del]

text \<open>
  The body of \<^verbatim>\<open>for (j = 0; j < order; j++)\<close>: choose \<open>Q'\<close> for odd \<open>j\<close> and \<open>P'\<close> for even
  \<open>j\<close> (\<open>j\<close> is not negative here), evaluate at \<open>xl\<close>, search.
\<close>

definition root_step ::
  "rounding \<Rightarrow> nat \<Rightarrow> allocator \<Rightarrow> real list \<Rightarrow> real list \<Rightarrow> int \<Rightarrow> int \<Rightarrow> real \<Rightarrow> int \<Rightarrow> search
     \<Rightarrow> error + search"
where
  "root_step fl n heap P Q order nb delta j s =
     (let pt = (if j mod 2 \<noteq> 0 then Q else P) in
      (case cheb_poly_eva fl heap pt (xl s) order of Inl e \<Rightarrow> Inl e
      | Inr pl \<Rightarrow> grid fl n heap pt order nb delta j (s\<lparr>psuml := pl, flag := True\<rparr>)))"

function root_loop ::
  "rounding \<Rightarrow> nat \<Rightarrow> allocator \<Rightarrow> real list \<Rightarrow> real list \<Rightarrow> int \<Rightarrow> int \<Rightarrow> real \<Rightarrow> int \<Rightarrow> search
     \<Rightarrow> error + search"
where
  "root_loop fl n heap P Q order nb delta j s =
     (if j < order then
        (case root_step fl n heap P Q order nb delta j s of Inl e \<Rightarrow> Inl e
         | Inr s' \<Rightarrow> root_loop fl n heap P Q order nb delta (j + 1) s')
      else Inr s)"
  by pat_completeness auto
termination
  by (relation "measure (\<lambda>(fl, n, heap, P, Q, order, nb, delta, j, s). nat (order - j))") auto

declare root_loop.simps [simp del]

text \<open>
  Lines 161 to 228, after the allocation: the x-domain roots. \<open>xm = 0\<close> comes from the
  declaration, \<open>flag = 1\<close>, \<open>xr = 0\<close> and \<open>xl = 1.0f\<close> from the assignments.
\<close>

definition x_domain ::
  "rounding \<Rightarrow> nat \<Rightarrow> allocator \<Rightarrow> real list \<Rightarrow> real list \<Rightarrow> real list \<Rightarrow> int \<Rightarrow> real option list
     \<Rightarrow> int \<Rightarrow> real \<Rightarrow> error + search"
where
  "x_domain fl n heap P0 Q0 a order freq0 nb delta =
     (case lpc_pq fl a order P0 Q0 of Inl e \<Rightarrow> Inl e
      | Inr (P, Q) \<Rightarrow>
          root_loop fl n heap P Q order nb delta 0
            \<lparr>xl = 1, xr = 0, xm = 0, psuml = 0, roots = 0, flag = True, freq = freq0\<rparr>)"

subsection \<open>The conversion to radians\<close>

text \<open>
  \<^verbatim>\<open>acosf\<close> on a cell of \<open>freq\<close>: NaN for a NaN and for an argument outside \<open>[-1, 1]\<close>,
  and the rounded inverse cosine otherwise.
\<close>

definition acosf :: "rounding \<Rightarrow> real option \<Rightarrow> real option" where
  "acosf fl v = (case v of None \<Rightarrow> None
                 | Some x \<Rightarrow> if - 1 \<le> x \<and> x \<le> 1 then Some (fl (arccos x)) else None)"

text \<open>\<^verbatim>\<open>for (i = 0; i < order; i++) freq[i] = acosf(freq[i]);\<close>\<close>

function to_radians :: "rounding \<Rightarrow> int \<Rightarrow> int \<Rightarrow> real option list \<Rightarrow> error + real option list" where
  "to_radians fl i order f =
     (if i < order then
        (case rd f i of Inl e \<Rightarrow> Inl e | Inr v \<Rightarrow>
         (case wr f i (acosf fl v) of Inl e \<Rightarrow> Inl e | Inr f' \<Rightarrow>
           to_radians fl (i + 1) order f'))
      else Inr f)"
  by pat_completeness auto
termination
  by (relation "measure (\<lambda>(fl, i, order, f). nat (order - i))") auto

declare to_radians.simps [simp del]

text \<open>
  \<^verbatim>\<open>int lpc_to_lsp(float *a, int order, float *freq, int nb, float delta)\<close>. The result
  is the returned \<^verbatim>\<open>int\<close> and the contents of the caller's \<open>freq\<close>; a failed allocation
  returns \<open>-1\<close> and leaves \<open>freq\<close> as it was. The size \<^verbatim>\<open>order + 1\<close> of the two buffers
  is the first thing computed.
\<close>

definition lpc_to_lsp ::
  "rounding \<Rightarrow> nat \<Rightarrow> allocator \<Rightarrow> real list \<Rightarrow> int \<Rightarrow> real option list \<Rightarrow> int \<Rightarrow> real
     \<Rightarrow> error + int \<times> real option list"
where
  "lpc_to_lsp fl n heap a order freq0 nb delta =
     (if INT_MAX \<le> order then Inl IntOverflow else
      (case malloc heap (order + 1) of None \<Rightarrow> Inr (- 1, freq0) | Some Q0 \<Rightarrow>
      (case malloc heap (order + 1) of None \<Rightarrow> Inr (- 1, freq0) | Some P0 \<Rightarrow>
      (case x_domain fl n heap P0 Q0 a order freq0 nb delta of Inl e \<Rightarrow> Inl e
      | Inr s \<Rightarrow>
          (case to_radians fl 0 order (freq s) of Inl e \<Rightarrow> Inl e
           | Inr f \<Rightarrow> Inr (roots s, f))))))"


section \<open>lsp_to_lpc\<close>

text \<open>\<^verbatim>\<open>for (i = 0; i < order; i++) freq[i] = cosf(lsp[i]);\<close>\<close>

function cos_fill :: "rounding \<Rightarrow> real list \<Rightarrow> int \<Rightarrow> int \<Rightarrow> real list \<Rightarrow> error + real list" where
  "cos_fill fl lsp i order fr =
     (if i < order then
        (case rd lsp i of Inl e \<Rightarrow> Inl e | Inr w \<Rightarrow>
         (case wr fr i (fl (cos w)) of Inl e \<Rightarrow> Inl e | Inr fr' \<Rightarrow>
           cos_fill fl lsp (i + 1) order fr'))
      else Inr fr)"
  by pat_completeness auto
termination
  by (relation "measure (\<lambda>(fl, lsp, i, order, fr). nat (order - i))") auto

declare cos_fill.simps [simp del]

text \<open>
  \<^verbatim>\<open>for (i = 0; i <= 4 * (order / 2) + 1; i++) *pw++ = 0.0f;\<close> with \<open>pw = Wp + i\<close>; the
  second argument is the bound \<open>4 * (order / 2) + 1\<close>.
\<close>

function zero_fill :: "int \<Rightarrow> int \<Rightarrow> real list \<Rightarrow> error + real list" where
  "zero_fill i n W =
     (if i \<le> n then
        (case wr W i 0 of Inl e \<Rightarrow> Inl e | Inr W' \<Rightarrow> zero_fill (i + 1) n W')
      else Inr W)"
  by pat_completeness auto
termination
  by (relation "measure (\<lambda>(i, n, W). nat (n + 1 - i))") auto

declare zero_fill.simps [simp del]

text \<open>
  The state of the reconstruction loops. \<open>n4\<close> is the only pointer that is read outside
  the iteration that sets it; it is an offset into \<open>Wp\<close>, and \<open>None\<close> is the null pointer
  of its declaration \<^verbatim>\<open>*n4 = 0\<close>. \<open>n1\<close>, \<open>n2\<close>, \<open>n3\<close>, \<open>xout1\<close> and \<open>xout2\<close> are bound
  where they are computed.
\<close>

record lattice =
  Wp :: "real list"
  xin1 :: real
  xin2 :: real
  n4 :: "int option"
  ak :: "real list"

text \<open>
  The body of \<^verbatim>\<open>for (i = 0; i < (order / 2); i++)\<close>: one second-order section.
  \<^verbatim>\<open>xin1 - 2 * (freq[2 * i]) * (*n1) + *n2\<close> is two products, a difference and a sum, each
  rounded.
\<close>

definition stage :: "rounding \<Rightarrow> real list \<Rightarrow> int \<Rightarrow> lattice \<Rightarrow> error + lattice" where
  "stage fl fr i s =
     (let p1 = i * 4; p2 = p1 + 1; p3 = p2 + 1; p4 = p3 + 1 in
      (case rd fr (2 * i) of Inl e \<Rightarrow> Inl e | Inr f1 \<Rightarrow>
      (case rd (Wp s) p1 of Inl e \<Rightarrow> Inl e | Inr w1 \<Rightarrow>
      (case rd (Wp s) p2 of Inl e \<Rightarrow> Inl e | Inr w2 \<Rightarrow>
      (case rd fr (2 * i + 1) of Inl e \<Rightarrow> Inl e | Inr f2 \<Rightarrow>
      (case rd (Wp s) p3 of Inl e \<Rightarrow> Inl e | Inr w3 \<Rightarrow>
      (case rd (Wp s) p4 of Inl e \<Rightarrow> Inl e | Inr w4 \<Rightarrow>
      (case wr (Wp s) p2 w1 of Inl e \<Rightarrow> Inl e | Inr W1 \<Rightarrow>
      (case wr W1 p4 w3 of Inl e \<Rightarrow> Inl e | Inr W2 \<Rightarrow>
      (case wr W2 p1 (xin1 s) of Inl e \<Rightarrow> Inl e | Inr W3 \<Rightarrow>
      (case wr W3 p3 (xin2 s) of Inl e \<Rightarrow> Inl e | Inr W4 \<Rightarrow>
        Inr (s\<lparr>Wp := W4,
               xin1 := fl (fl (xin1 s - fl (fl (2 * f1) * w1)) + w2),
               xin2 := fl (fl (xin2 s - fl (fl (2 * f2) * w3)) + w4),
               n4 := Some p4\<rparr>))))))))))))"

function stages :: "rounding \<Rightarrow> real list \<Rightarrow> int \<Rightarrow> int \<Rightarrow> lattice \<Rightarrow> error + lattice" where
  "stages fl fr order i s =
     (if i < order sdiv 2 then
        (case stage fl fr i s of Inl e \<Rightarrow> Inl e | Inr s' \<Rightarrow> stages fl fr order (i + 1) s')
      else Inr s)"
  by pat_completeness auto
termination
  by (relation "measure (\<lambda>(fl, fr, order, i, s). nat (order sdiv 2 - i))") auto

declare stages.simps [simp del]

text \<open>
  The body of \<^verbatim>\<open>for (j = 0; j <= order; j++)\<close>: the cascade, the two trailing slots
  \<open>n4 + 1\<close> and \<open>n4 + 2\<close>, the store to \<open>ak[j]\<close> and the two assignments of \<open>0.0f\<close>.
\<close>

definition clock_step :: "rounding \<Rightarrow> real list \<Rightarrow> int \<Rightarrow> int \<Rightarrow> lattice \<Rightarrow> error + lattice" where
  "clock_step fl fr order j s =
     (case stages fl fr order 0 s of Inl e \<Rightarrow> Inl e
      | Inr s1 \<Rightarrow>
         (case n4 s1 of None \<Rightarrow> Inl NullDeref
          | Some p4 \<Rightarrow>
             (case rd (Wp s1) (p4 + 1) of Inl e \<Rightarrow> Inl e | Inr t1 \<Rightarrow>
              (case rd (Wp s1) (p4 + 2) of Inl e \<Rightarrow> Inl e | Inr t2 \<Rightarrow>
              (case wr (ak s1) j (fl (fl (fl (xin1 s1 + t1) + fl (xin2 s1 - t2)) * (1 / 2))) of
                Inl e \<Rightarrow> Inl e | Inr ak' \<Rightarrow>
              (case wr (Wp s1) (p4 + 1) (xin1 s1) of Inl e \<Rightarrow> Inl e | Inr W1 \<Rightarrow>
              (case wr W1 (p4 + 2) (xin2 s1) of Inl e \<Rightarrow> Inl e | Inr W2 \<Rightarrow>
                Inr (s1\<lparr>Wp := W2, ak := ak', xin1 := 0, xin2 := 0\<rparr>))))))))"

function clock :: "rounding \<Rightarrow> real list \<Rightarrow> int \<Rightarrow> int \<Rightarrow> lattice \<Rightarrow> error + lattice" where
  "clock fl fr order j s =
     (if j \<le> order then
        (case clock_step fl fr order j s of Inl e \<Rightarrow> Inl e
         | Inr s' \<Rightarrow> clock fl fr order (j + 1) s')
      else Inr s)"
  by pat_completeness auto
termination
  by (relation "measure (\<lambda>(fl, fr, order, j, s). nat (order + 1 - j))") auto

declare clock.simps [simp del]

text \<open>
  The state in which the outer loop is entered: the zeroed buffer, \<open>xin1 = xin2 = 1.0f\<close>
  and the null \<open>n4\<close>.
\<close>

definition lattice_init :: "real list \<Rightarrow> real list \<Rightarrow> lattice" where
  "lattice_init W ak0 = \<lparr>Wp = W, xin1 = 1, xin2 = 1, n4 = None, ak = ak0\<rparr>"

text \<open>
  \<^verbatim>\<open>void lsp_to_lpc(float *lsp, float *ak, int order)\<close>. The result is the contents of
  the caller's \<open>ak\<close>; a failed allocation returns with \<open>ak\<close> as it was. The size
  \<^verbatim>\<open>order * 4 + 2\<close> of the second buffer is computed in \<^verbatim>\<open>int\<close>.
\<close>

definition lsp_to_lpc ::
  "rounding \<Rightarrow> allocator \<Rightarrow> real list \<Rightarrow> real list \<Rightarrow> int \<Rightarrow> error + real list"
where
  "lsp_to_lpc fl heap lsp ak0 order =
     (if INT_MAX < order * 4 + 2 \<or> order * 4 < - INT_MAX - 1 then Inl IntOverflow else
      (case malloc heap order of None \<Rightarrow> Inr ak0 | Some fr0 \<Rightarrow>
      (case malloc heap (order * 4 + 2) of None \<Rightarrow> Inr ak0 | Some W0 \<Rightarrow>
      (case cos_fill fl lsp 0 order fr0 of Inl e \<Rightarrow> Inl e | Inr fr \<Rightarrow>
      (case zero_fill 0 (4 * (order sdiv 2) + 1) W0 of Inl e \<Rightarrow> Inl e | Inr W \<Rightarrow>
      (case clock fl fr order 0 (lattice_init W ak0) of Inl e \<Rightarrow> Inl e
      | Inr s \<Rightarrow> Inr (ak s)))))))"

section \<open>Notions of the specification\<close>

text \<open>
  \<open>repeat k f s\<close> runs a loop body \<open>f\<close> for the indices \<open>0, \<dots>, k - 1\<close> in turn, from the
  state \<open>s\<close>, and stops at the first error. It is the state in which a loop that counts
  from \<open>0\<close> starts its iteration \<open>k\<close>, and it says how many times a loop ran its body.
\<close>

fun repeat :: "nat \<Rightarrow> (nat \<Rightarrow> 's \<Rightarrow> error + 's) \<Rightarrow> 's \<Rightarrow> error + 's" where
  "repeat 0 f s = Inr s"
| "repeat (Suc k) f s = (case repeat k f s of Inl e \<Rightarrow> Inl e | Inr s' \<Rightarrow> f k s')"

text \<open>
  The half-order polynomials as the specification gives them, before the doubling:
  \<open>P'[0] = Q'[0] = 1\<close>, \<open>P'[i] = a[i] + a[order + 1 - i] - P'[i - 1]\<close> and
  \<open>Q'[i] = a[i] - a[order + 1 - i] + Q'[i - 1]\<close>, every sum and difference rounded.
\<close>

fun P_spec :: "rounding \<Rightarrow> real list \<Rightarrow> nat \<Rightarrow> nat \<Rightarrow> real" where
  "P_spec fl a order 0 = 1"
| "P_spec fl a order (Suc i) = fl (fl (a ! Suc i + a ! (order + 1 - Suc i)) - P_spec fl a order i)"

fun Q_spec :: "rounding \<Rightarrow> real list \<Rightarrow> nat \<Rightarrow> nat \<Rightarrow> real" where
  "Q_spec fl a order 0 = 1"
| "Q_spec fl a order (Suc i) = fl (fl (a ! Suc i - a ! (order + 1 - Suc i)) + Q_spec fl a order i)"

text \<open>"All entries except the last are then doubled", for a polynomial with entries \<open>0..m\<close>.\<close>

definition doubled :: "rounding \<Rightarrow> nat \<Rightarrow> (nat \<Rightarrow> real) \<Rightarrow> nat \<Rightarrow> real" where
  "doubled fl m p i = (if i < m then fl (2 * p i) else p i)"

text \<open>The clamp of the specification's inverse cosine.\<close>

definition clamp :: "real \<Rightarrow> real" where
  "clamp x = max (- 1) (min 1 x)"

text \<open>
  What the search uses of a rounding: it is monotone, it leaves the numbers it returns, \<open>0\<close>
  and \<open>1\<close> as they are, and twice a number it leaves is a number it leaves.
\<close>

definition is_rounding :: "rounding \<Rightarrow> bool" where
  "is_rounding fl \<longleftrightarrow>
     (\<forall>x y. x \<le> y \<longrightarrow> fl x \<le> fl y) \<and> (\<forall>x. fl (fl x) = fl x) \<and> fl 0 = 0 \<and> fl 1 = 1 \<and>
     (\<forall>x. fl x = x \<longrightarrow> fl (2 * x) = 2 * x)"

text \<open>
  A grid step of \<open>delta\<close> takes at least \<open>c > 0\<close> off every point of \<open>[-1, 1]\<close>.
\<close>

definition steps_down :: "rounding \<Rightarrow> real \<Rightarrow> real \<Rightarrow> bool" where
  "steps_down fl delta c \<longleftrightarrow> 0 < c \<and> (\<forall>x. - 1 \<le> x \<and> x \<le> 1 \<longrightarrow> fl (x - delta) \<le> x - c)"


section \<open>Properties of the single-precision rounding\<close>

lemma powi_suc: "(2::real) powi (k + 1) = 2 * 2 powi k"
  by (simp add: power_int_add)

lemma bex_bounds: "x \<noteq> 0 \<Longrightarrow> 2 powi bex x \<le> \<bar>x\<bar> \<and> \<bar>x\<bar> < 2 powi (bex x + 1)"
proof (induction x rule: bex.induct)
  case (1 x)
  show ?case
  proof (cases "2 \<le> \<bar>x\<bar>")
    case True
    then have e: "bex x = bex (x / 2) + 1" by (subst bex.simps) simp
    have "x / 2 \<noteq> 0" using True by auto
    then have ih: "2 powi bex (x / 2) \<le> \<bar>x / 2\<bar> \<and> \<bar>x / 2\<bar> < 2 powi (bex (x / 2) + 1)"
      using 1(1) [OF True] by simp
    have h: "\<bar>x / 2\<bar> = \<bar>x\<bar> / 2" by simp
    show ?thesis unfolding e
      using ih powi_suc [of "bex (x / 2)"] powi_suc [of "bex (x / 2) + 1"] unfolding h by linarith
  next
    case False
    show ?thesis
    proof (cases "\<bar>x\<bar> < 1")
      case True
      then have e: "bex x = bex (2 * x) - 1" using False 1(3) by (subst bex.simps) simp
      have ih: "2 powi bex (2 * x) \<le> \<bar>2 * x\<bar> \<and> \<bar>2 * x\<bar> < 2 powi (bex (2 * x) + 1)"
        using 1(2) [OF False] True 1(3) by simp
      have h: "\<bar>2 * x\<bar> = 2 * \<bar>x\<bar>" by simp
      have s: "bex (2 * x) - 1 + 1 = bex (2 * x)" by simp
      show ?thesis unfolding e s
        using ih powi_suc [of "bex (2 * x) - 1"] powi_suc [of "bex (2 * x)"] unfolding h s by linarith
    next
      case t: False
      then have e: "bex x = 0" using False by (subst bex.simps) simp
      show ?thesis unfolding e using False t by simp
    qed
  qed
qed

lemma powi_less_D: "(2::real) powi m < 2 powi n \<Longrightarrow> m < n"
  using power_int_increasing [of n m "2::real"] by (cases "m < n") simp_all

lemma powi_le_D: "(2::real) powi m \<le> 2 powi n \<Longrightarrow> m \<le> n"
  using power_int_strict_increasing [of n m "2::real"] by (cases "m \<le> n") simp_all

lemma powi_mono: "m \<le> n \<Longrightarrow> (2::real) powi m \<le> 2 powi n"
  by (rule power_int_increasing) simp_all

lemma powi_pos: "0 < (2::real) powi k"
  by (rule zero_less_power_int) simp

lemma bex_eq: "2 powi k \<le> \<bar>x\<bar> \<Longrightarrow> \<bar>x\<bar> < 2 powi (k + 1) \<Longrightarrow> bex x = k"
proof -
  assume a: "2 powi k \<le> \<bar>x\<bar>" "\<bar>x\<bar> < 2 powi (k + 1)"
  have "0 < (2::real) powi k" by (rule zero_less_power_int) simp
  then have "0 < \<bar>x\<bar>" using a(1) by linarith
  then have x: "x \<noteq> 0" by simp
  note b = bex_bounds [OF x]
  have "(2::real) powi k < 2 powi (bex x + 1)" using a b by linarith
  then have 1: "k < bex x + 1" by (rule powi_less_D)
  have "(2::real) powi bex x < 2 powi (k + 1)" using a b by linarith
  then have 2: "bex x < k + 1" by (rule powi_less_D)
  show ?thesis using 1 2 by simp
qed

lemma rne_of_int: "rne (of_int k) = k"
  by (simp add: rne_def)

lemma rne_err: "\<bar>of_int (rne z) - z\<bar> \<le> 1 / 2"
  unfolding rne_def Let_def by (auto simp: abs_if) linarith+

lemma rne_mono: "z \<le> w \<Longrightarrow> rne z \<le> rne w"
proof -
  assume a: "z \<le> w"
  then have f: "\<lfloor>z\<rfloor> \<le> \<lfloor>w\<rfloor>" by (rule floor_mono)
  have l: "\<lfloor>t\<rfloor> \<le> rne t" "rne t \<le> \<lfloor>t\<rfloor> + 1" for t unfolding rne_def Let_def by auto
  show ?thesis
  proof (cases "\<lfloor>z\<rfloor> = \<lfloor>w\<rfloor>")
    case True
    then show ?thesis using a unfolding rne_def Let_def by auto
  next
    case False
    then have "\<lfloor>z\<rfloor> + 1 \<le> \<lfloor>w\<rfloor>" using f by simp
    then show ?thesis using l(1) [of w] l(2) [of z] by linarith
  qed
qed


lemma rne_bounds: "of_int a \<le> z \<Longrightarrow> a \<le> rne z" "z \<le> of_int b \<Longrightarrow> rne z \<le> b"
  using rne_mono [of "of_int a" z] rne_mono [of z "of_int b"] by (simp_all add: rne_of_int)

lemma qexp_ge: "- 149 \<le> qexp x"
  by (simp add: qexp_def)

lemma abs_less_qexp: "\<bar>x\<bar> < 2 powi (qexp x + 24)"
proof (cases "x = 0")
  case True
  then show ?thesis by (simp add: powi_pos)
next
  case False
  have "\<bar>x\<bar> < 2 powi (bex x + 1)" using bex_bounds [OF False] by simp
  also have "\<dots> \<le> 2 powi (qexp x + 24)" by (rule powi_mono) (simp add: qexp_def)
  finally show ?thesis .
qed

lemma scaled: "x / 2 powi q * 2 powi q = (x::real)"
  using powi_pos [of q] by simp

lemma scaled_less: "\<bar>x / 2 powi qexp x\<bar> < 16777216"
proof -
  have "\<bar>x\<bar> < 2 powi qexp x * 2 powi 24" using abs_less_qexp [of x] by (simp add: power_int_add)
  then have "\<bar>x\<bar> / 2 powi qexp x < 2 powi 24" using powi_pos [of "qexp x"] by (simp add: field_simps)
  then show ?thesis using powi_pos [of "qexp x"] by simp
qed

lemma rne_scaled: "- 16777216 \<le> rne (x / 2 powi qexp x)" "rne (x / 2 powi qexp x) \<le> 16777216"
proof -
  define z where "z = x / 2 powi qexp x"
  have "\<bar>z\<bar> < 16777216" unfolding z_def by (rule scaled_less)
  then have b: "of_int (- 16777216) \<le> z" "z \<le> of_int 16777216" by simp_all
  have "- 16777216 \<le> rne z" "rne z \<le> 16777216"
    using rne_bounds(1) [OF b(1)] rne_bounds(2) [OF b(2)] by simp_all
  then show "- 16777216 \<le> rne (x / 2 powi qexp x)" "rne (x / 2 powi qexp x) \<le> 16777216"
    by (simp_all only: z_def)
qed

lemma fl32_grid: "x = of_int k * 2 powi p \<Longrightarrow> qexp x \<le> p \<Longrightarrow> fl32 x = x"
proof -
  assume a: "x = of_int k * 2 powi p" "qexp x \<le> p"
  define q where "q = qexp x"
  have "(2::real) powi p = 2 powi (p - q) * 2 powi q" by (simp flip: power_int_add)
  moreover have "(2::real) powi (p - q) = 2 ^ nat (p - q)" using a(2) by (simp add: q_def power_int_def)
  ultimately have "x / 2 powi q = of_int (k * 2 ^ nat (p - q))" using a(1) powi_pos [of q] by simp
  then have "rne (x / 2 powi q) = k * 2 ^ nat (p - q)" by (simp only: rne_of_int)
  then have "fl32 x = of_int (k * 2 ^ nat (p - q)) * 2 powi q" by (simp add: fl32_def q_def)
  also have "\<dots> = x / 2 powi q * 2 powi q" using \<open>x / 2 powi q = of_int (k * 2 ^ nat (p - q))\<close> by simp
  finally show ?thesis by (simp only: scaled)
qed

lemma fl32_0: "fl32 0 = 0"
  by (simp add: fl32_def rne_def)

lemma fl32_rep: "\<bar>k\<bar> < 16777216 \<Longrightarrow> - 149 \<le> p \<Longrightarrow> fl32 (of_int k * 2 powi p) = of_int k * 2 powi p"
proof -
  assume a: "\<bar>k\<bar> < 16777216" "- 149 \<le> p"
  define x :: real where "x = of_int k * 2 powi p"
  show "fl32 (of_int k * 2 powi p) = of_int k * 2 powi p"
  proof (cases "k = 0")
    case True
    then show ?thesis by (simp add: fl32_0)
  next
    case False
    then have x0: "x \<noteq> 0" using powi_pos [of p] by (simp add: x_def)
    have "\<bar>x\<bar> = of_int \<bar>k\<bar> * 2 powi p" using powi_pos [of p] by (simp add: x_def abs_mult)
    also have "\<dots> < 16777216 * 2 powi p"
    proof -
      have "(of_int \<bar>k\<bar> :: real) < of_int 16777216" using a(1) by (simp only: of_int_less_iff)
      then show ?thesis using powi_pos [of p] by (simp add: mult_strict_right_mono)
    qed
    also have "\<dots> = 2 powi (p + 24)" by (simp add: power_int_add)
    finally have "2 powi bex x < (2::real) powi (p + 24)" using bex_bounds [OF x0] by linarith
    then have "bex x < p + 24" by (rule powi_less_D)
    then have "qexp x \<le> p" using a(2) by (simp add: qexp_def)
    then have "fl32 x = x" by (rule fl32_grid [OF x_def])
    then show ?thesis by (simp only: x_def)
  qed
qed

lemma fl32_is_rep: "\<exists>k p. fl32 x = of_int k * 2 powi p \<and> \<bar>k\<bar> < 16777216 \<and> - 149 \<le> p"
proof -
  define m where "m = rne (x / 2 powi qexp x)"
  have f: "fl32 x = of_int m * 2 powi qexp x" by (simp add: fl32_def m_def)
  have b: "- 16777216 \<le> m" "m \<le> 16777216" using rne_scaled [of x] by (simp_all add: m_def)
  show ?thesis
  proof (cases "\<bar>m\<bar> < 16777216")
    case True
    then show ?thesis using f qexp_ge [of x] by blast
  next
    case False
    then have "m = 16777216 \<or> m = - 16777216" using b by linarith
    then have "fl32 x = of_int (m div 2) * 2 powi (qexp x + 1) \<and> \<bar>m div 2\<bar> < 16777216"
      unfolding f by (auto simp: power_int_add)
    then show ?thesis using qexp_ge [of x] by (intro exI [of _ "m div 2"] exI [of _ "qexp x + 1"]) simp
  qed
qed

lemma fl32_idem: "fl32 (fl32 x) = fl32 x"
  using fl32_is_rep [of x] fl32_rep by auto

lemma fl32_double: "fl32 x = x \<Longrightarrow> fl32 (2 * x) = 2 * x"
proof -
  assume a: "fl32 x = x"
  obtain k p where r: "fl32 x = of_int k * 2 powi p" "\<bar>k\<bar> < 16777216" "- 149 \<le> p"
    using fl32_is_rep [of x] by blast
  have "2 * x = of_int k * 2 powi (p + 1)" using r(1) a by (simp add: power_int_add)
  then show ?thesis using fl32_rep [of k "p + 1"] r by simp
qed

lemma fl32_err: "\<bar>fl32 x - x\<bar> \<le> 2 powi (qexp x - 1)"
proof -
  define q where "q = qexp x"
  define z where "z = x / 2 powi q"
  have x: "x = z * 2 powi q" by (simp add: z_def scaled)
  have "fl32 x - x = (of_int (rne z) - z) * 2 powi q"
    by (simp add: fl32_def z_def q_def scaled algebra_simps)
  then have "\<bar>fl32 x - x\<bar> = \<bar>of_int (rne z) - z\<bar> * 2 powi q" using powi_pos [of q] by (simp add: abs_mult)
  also have "\<dots> \<le> 1 / 2 * 2 powi q" using rne_err [of z] powi_pos [of q] by (simp add: mult_right_mono)
  also have "\<dots> = 2 powi (q - 1)" by (simp add: power_int_diff)
  finally show ?thesis by (simp only: q_def)
qed


lemma fl32_nonneg: "0 \<le> x \<Longrightarrow> 0 \<le> fl32 x"
proof -
  assume "0 \<le> x"
  then have "of_int 0 \<le> x / 2 powi qexp x" using powi_pos [of "qexp x"] by simp
  then have "0 \<le> rne (x / 2 powi qexp x)" by (rule rne_bounds)
  then show ?thesis using powi_pos [of "qexp x"] by (simp add: fl32_def)
qed

lemma fl32_nonpos: "x \<le> 0 \<Longrightarrow> fl32 x \<le> 0"
proof -
  assume "x \<le> 0"
  then have "x / 2 powi qexp x \<le> of_int 0" using powi_pos [of "qexp x"] by (simp add: divide_le_0_iff)
  then have "rne (x / 2 powi qexp x) \<le> 0" by (rule rne_bounds)
  then show ?thesis using powi_pos [of "qexp x"] by (simp add: fl32_def mult_le_0_iff)
qed

lemma qexp_mono: "x \<noteq> 0 \<Longrightarrow> \<bar>x\<bar> \<le> \<bar>y\<bar> \<Longrightarrow> qexp x \<le> qexp y"
proof -
  assume a: "x \<noteq> 0" "\<bar>x\<bar> \<le> \<bar>y\<bar>"
  then have y: "y \<noteq> 0" by auto
  have "(2::real) powi bex x < 2 powi (bex y + 1)"
    using bex_bounds [OF a(1)] bex_bounds [OF y] a(2) by linarith
  then have "bex x < bex y + 1" by (rule powi_less_D)
  then show ?thesis by (simp add: qexp_def)
qed

lemma fl32_same_grid: "qexp x = qexp y \<Longrightarrow> x \<le> y \<Longrightarrow> fl32 x \<le> fl32 y"
proof -
  assume a: "qexp x = qexp y" "x \<le> y"
  have "x / 2 powi qexp y \<le> y / 2 powi qexp y" using a(2) powi_pos [of "qexp y"] by (simp add: divide_right_mono)
  then have "rne (x / 2 powi qexp y) \<le> rne (y / 2 powi qexp y)" by (rule rne_mono)
  then show ?thesis using powi_pos [of "qexp y"] by (simp add: fl32_def a(1) mult_right_mono)
qed

lemma fl32_upper: "\<bar>fl32 x\<bar> \<le> 2 powi (qexp x + 24)"
proof -
  have "\<bar>rne (x / 2 powi qexp x)\<bar> \<le> 16777216" using rne_scaled [of x] by linarith
  then have "\<bar>of_int (rne (x / 2 powi qexp x)) :: real\<bar> \<le> 16777216" by linarith
  then have "\<bar>fl32 x\<bar> \<le> 16777216 * 2 powi qexp x"
    using powi_pos [of "qexp x"] by (simp add: fl32_def abs_mult mult_right_mono)
  then show ?thesis by (simp add: power_int_add)
qed

lemma fl32_lower:
  assumes "- 126 < bex x" "x \<noteq> 0"
  shows "0 < x \<Longrightarrow> 2 powi (qexp x + 23) \<le> fl32 x" and "x < 0 \<Longrightarrow> fl32 x \<le> - (2 powi (qexp x + 23))"
proof -
  have q: "qexp x + 23 = bex x" using assms(1) by (simp add: qexp_def)
  have "2 powi (qexp x + 23) \<le> \<bar>x\<bar>" using bex_bounds [OF assms(2)] by (simp add: q)
  then have "8388608 * 2 powi qexp x \<le> \<bar>x\<bar>" by (simp add: power_int_add)
  then have b: "8388608 \<le> \<bar>x\<bar> / 2 powi qexp x" using powi_pos [of "qexp x"] by (simp add: field_simps)
  have p: "(2::real) powi (qexp x + 23) = 8388608 * 2 powi qexp x" by (simp add: power_int_add)
  {
    assume "0 < x"
    then have "of_int 8388608 \<le> x / 2 powi qexp x" using b by simp
    then have "8388608 \<le> rne (x / 2 powi qexp x)" by (rule rne_bounds)
    then have "(8388608 :: real) \<le> of_int (rne (x / 2 powi qexp x))" by linarith
    then show "2 powi (qexp x + 23) \<le> fl32 x"
      unfolding p fl32_def using powi_pos [of "qexp x"] by (simp add: mult_right_mono)
  }
  {
    assume "x < 0"
    then have "x / 2 powi qexp x \<le> of_int (- 8388608)" using b by simp
    then have "rne (x / 2 powi qexp x) \<le> - 8388608" by (rule rne_bounds)
    then have "of_int (rne (x / 2 powi qexp x)) \<le> (- 8388608 :: real)" by linarith
    then have "of_int (rne (x / 2 powi qexp x)) * 2 powi qexp x \<le> (- 8388608 :: real) * 2 powi qexp x"
      using powi_pos [of "qexp x"] by (intro mult_right_mono) simp_all
    then show "fl32 x \<le> - (2 powi (qexp x + 23))"
      unfolding p fl32_def by simp
  }
qed

lemma fl32_mono: "x \<le> y \<Longrightarrow> fl32 x \<le> fl32 y"
proof -
  assume a: "x \<le> y"
  consider "x \<le> 0 \<and> 0 \<le> y" | "0 < x" | "y < 0" using a by linarith
  then show ?thesis
  proof cases
    case 1
    then show ?thesis using fl32_nonneg [of y] fl32_nonpos [of x] by linarith
  next
    case 2
    then have le: "qexp x \<le> qexp y" using a by (intro qexp_mono) simp_all
    show ?thesis
    proof (cases "qexp x = qexp y")
      case True
      then show ?thesis using a by (rule fl32_same_grid)
    next
      case False
      then have lt: "qexp x + 1 \<le> qexp y" using le by simp
      then have "- 126 < bex y" by (simp add: qexp_def split: if_splits)
      then have "2 powi (qexp y + 23) \<le> fl32 y" using 2 a by (intro fl32_lower) simp_all
      moreover have "fl32 x \<le> 2 powi (qexp x + 24)" using fl32_upper [of x] by linarith
      moreover have "(2::real) powi (qexp x + 24) \<le> 2 powi (qexp y + 23)" using lt by (intro powi_mono) simp
      ultimately show ?thesis by linarith
    qed
  next
    case 3
    then have le: "qexp y \<le> qexp x" using a by (intro qexp_mono) simp_all
    show ?thesis
    proof (cases "qexp x = qexp y")
      case True
      then show ?thesis using a by (rule fl32_same_grid)
    next
      case False
      then have lt: "qexp y + 1 \<le> qexp x" using le by simp
      then have "- 126 < bex x" by (simp add: qexp_def split: if_splits)
      then have "fl32 x \<le> - (2 powi (qexp x + 23))" using 3 a by (intro fl32_lower) simp_all
      moreover have "- (2 powi (qexp y + 24)) \<le> fl32 y" using fl32_upper [of y] by linarith
      moreover have "(2::real) powi (qexp y + 24) \<le> 2 powi (qexp x + 23)" using lt by (intro powi_mono) simp
      ultimately show ?thesis by linarith
    qed
  qed
qed

lemma fl32_consts: "fl32 1 = 1" "fl32 (- 1) = - 1" "fl32 2 = 2" "fl32 (1 / 2) = 1 / 2"
  by (simp_all add: fl32_def qexp_def bex.simps rne_def Let_def)


lemma fl32_err_max: "\<bar>fl32 x - x\<bar> \<le> max \<bar>x\<bar> 1 / 16777216"
proof -
  have "(2::real) powi (qexp x - 1) \<le> max \<bar>x\<bar> 1 / 16777216"
  proof (cases "x \<noteq> 0 \<and> - 126 \<le> bex x")
    case True
    then have q: "qexp x - 1 = bex x - 24" by (simp add: qexp_def)
    have "(2::real) powi (bex x - 24) = 2 powi bex x / 16777216" by (simp add: power_int_diff)
    also have "\<dots> \<le> \<bar>x\<bar> / 16777216" using bex_bounds [of x] True by (simp add: divide_right_mono)
    also have "\<dots> \<le> max \<bar>x\<bar> 1 / 16777216" by (simp add: divide_right_mono)
    finally show ?thesis by (simp only: q)
  next
    case False
    then have "x = 0 \<or> bex x < - 126" by auto
    then have "qexp x - 1 \<le> - 24"
    proof
      assume "x = 0"
      then show ?thesis by (simp add: qexp_def bex.simps)
    next
      assume "bex x < - 126"
      then show ?thesis by (simp add: qexp_def)
    qed
    then have "(2::real) powi (qexp x - 1) \<le> 2 powi (- 24)" by (rule powi_mono)
    also have "\<dots> = 1 / 16777216" by (simp add: power_int_minus_divide)
    also have "\<dots> \<le> max \<bar>x\<bar> 1 / 16777216" by (simp add: divide_right_mono)
    finally show ?thesis .
  qed
  then show ?thesis using fl32_err [of x] by linarith
qed

lemma is_rounding_fl32: "is_rounding fl32"
  unfolding is_rounding_def
  using fl32_mono fl32_idem fl32_0 fl32_consts(1) fl32_double by blast

lemma is_rounding_exact: "is_rounding exact"
  by (simp add: is_rounding_def exact_def)

lemma steps_down_exact: "0 < delta \<Longrightarrow> steps_down exact delta delta"
  by (simp add: steps_down_def exact_def)

lemma steps_down_fl32: "0 < step32 delta \<Longrightarrow> steps_down fl32 delta (step32 delta)"
proof -
  assume c: "0 < step32 delta"
  then have d: "0 < delta" by (simp add: step32_def)
  have "fl32 (x - delta) \<le> x - step32 delta" if x: "- 1 \<le> x \<and> x \<le> 1" for x
  proof -
    have "\<bar>x - delta\<bar> \<le> 1 + delta" using x d by (simp add: abs_le_iff)
    then have "max \<bar>x - delta\<bar> 1 \<le> 1 + delta" using d by simp
    then have "max \<bar>x - delta\<bar> 1 / 16777216 \<le> (1 + delta) / 16777216" by (simp add: divide_right_mono)
    then have "\<bar>fl32 (x - delta) - (x - delta)\<bar> \<le> (1 + delta) / 16777216"
      using fl32_err_max [of "x - delta"] by linarith
    then show ?thesis unfolding step32_def by linarith
  qed
  then show ?thesis using c by (simp add: steps_down_def)
qed

text \<open>
  The rules that evaluate \<open>fl32\<close> at a rational number; they leave \<open>fl32\<close> of anything else
  alone.
\<close>

lemmas fl32_eval =
  fl32_0 fl32_consts
  fl32_def [of "numeral a" for a] fl32_def [of "- numeral a" for a]
  fl32_def [of "numeral a / numeral b" for a b] fl32_def [of "- (numeral a / numeral b)" for a b]
  fl32_def [of "1 / numeral b" for b] fl32_def [of "- (1 / numeral b)" for b]
  qexp_def bex.simps rne_def Let_def


section \<open>Checked accesses and cheb_poly_eva\<close>

lemma sdiv2_nonneg: "0 \<le> (n::int) \<Longrightarrow> n sdiv 2 = n div 2"
  by (cases "n = 0") (simp_all add: signed_divide_int_def)

lemma rd_Inr [simp]: "0 \<le> i \<Longrightarrow> i < int (length xs) \<Longrightarrow> rd xs i = Inr (xs ! nat i)"
  by (simp add: rd_def)

lemma wr_Inr [simp]: "0 \<le> i \<Longrightarrow> i < int (length xs) \<Longrightarrow> wr xs i v = Inr (xs[nat i := v])"
  by (simp add: wr_def)

lemma rd_error: "rd xs i = Inl e \<Longrightarrow> e = OutOfBounds"
  by (simp add: rd_def split: if_splits)

lemma wr_error: "wr xs i v = Inl e \<Longrightarrow> e = OutOfBounds"
  by (simp add: wr_def split: if_splits)

lemma wr_length: "wr xs i v = Inr ys \<Longrightarrow> length ys = length xs"
  by (auto simp: wr_def split: if_splits)

lemma malloc_length: "malloc heap n = Some B \<Longrightarrow> int (length B) = n"
  by (auto simp: malloc_def split: if_splits option.splits)


lemma cheb_fill_total:
  assumes "2 \<le> i" "i \<le> m + 1" "int (length T) = m + 1"
  shows "\<exists>T'. cheb_fill fl x i m T = Inr T' \<and> length T' = length T"
  using assms
proof (induction fl x i m T rule: cheb_fill.induct)
  case (1 fl x i m T)
  show ?case
  proof (cases "i \<le> m")
    case False
    then show ?thesis by (subst cheb_fill.simps) simp
  next
    case True
    define T' where "T' = T[nat i := fl (fl (fl (2 * x) * (T ! nat (i - 1))) - T ! nat (i - 2))]"
    have r1: "rd T (i - 1) = Inr (T ! nat (i - 1))" and r2: "rd T (i - 2) = Inr (T ! nat (i - 2))"
      and w: "wr T i (fl (fl (fl (2 * x) * (T ! nat (i - 1))) - T ! nat (i - 2))) = Inr T'"
      using True "1.prems" by (simp_all add: T'_def)
    have step: "cheb_fill fl x i m T = cheb_fill fl x (i + 1) m T'"
      using True by (subst cheb_fill.simps) (simp add: r1 r2 w)
    have "\<exists>T''. cheb_fill fl x (i + 1) m T' = Inr T'' \<and> length T'' = length T'"
      using "1.IH"[OF True r1 r2 w] "1.prems" True by (simp add: T'_def)
    then show ?thesis by (simp add: step T'_def)
  qed
qed

lemma cheb_sum_total:
  assumes "0 \<le> i" "i \<le> m + 1" "m + 1 \<le> int (length T)" "m + 1 \<le> int (length coef)"
  shows "\<exists>y. cheb_sum fl coef T i m acc = Inr y"
  using assms
proof (induction fl coef T i m acc rule: cheb_sum.induct)
  case (1 fl coef T i m acc)
  show ?case
  proof (cases "i \<le> m")
    case False
    then show ?thesis by (subst cheb_sum.simps) simp
  next
    case True
    have r1: "rd coef (m - i) = Inr (coef ! nat (m - i))"
      using True "1.prems" by simp
    have r2: "rd T i = Inr (T ! nat i)"
      using True "1.prems" by simp
    have "\<exists>y. cheb_sum fl coef T (i + 1) m (fl (acc + fl (coef ! nat (m - i) * T ! nat i))) = Inr y"
      using "1.IH"[OF True r1 r2] "1.prems" True by simp
    then show ?thesis using True by (subst cheb_sum.simps) (simp add: r1 r2)
  qed
qed

lemma cheb_poly_eva_no_fault:
  assumes o2: "2 \<le> order" and len: "order div 2 + 1 \<le> int (length coef)"
  shows "\<exists>y. cheb_poly_eva fl heap coef x order = Inr y"
proof (cases "malloc heap (order div 2 + 1)")
  case None
  then show ?thesis using o2 by (simp add: cheb_poly_eva_def sdiv2_nonneg)
next
  case (Some T0)
  define m where "m = order div 2"
  have m1: "1 \<le> m" using o2 by (simp add: m_def)
  have sd: "order sdiv 2 = m" using o2 by (simp add: sdiv2_nonneg m_def)
  have al: "malloc heap (m + 1) = Some T0" using Some by (simp add: m_def)
  have len0: "int (length T0) = m + 1" using al by (rule malloc_length)
  define T2 where "T2 = T0[0 := 1, 1 := x]"
  have w0: "wr T0 0 1 = Inr (T0[0 := 1])"
    using m1 len0 by simp
  have w1: "wr (T0[0 := 1]) 1 x = Inr T2"
    using m1 len0 by (simp add: T2_def)
  have lenT2: "int (length T2) = m + 1" using len0 by (simp add: T2_def)
  obtain T where T: "cheb_fill fl x 2 m T2 = Inr T" "length T = length T2"
    using cheb_fill_total [OF _ _ lenT2, of 2 fl x] m1 by auto
  obtain y where y: "cheb_sum fl coef T 0 m 0 = Inr y"
    using cheb_sum_total [of 0 m T coef fl 0] m1 T(2) lenT2 len by (auto simp: m_def)
  have "cheb_poly_eva fl heap coef x order = Inr y"
    unfolding cheb_poly_eva_def sd by (simp add: al w0 w1 T(1) y)
  then show ?thesis by blast
qed


text \<open>Without rounding the value is the sum of the specification.\<close>

lemma cheb_fill_inv:
  assumes "fl = exact" "2 \<le> i" "i \<le> m + 1" "int (length T) = m + 1"
    and "\<forall>k. k < nat i \<longrightarrow> T ! k = chebT k x"
  shows "\<exists>T'. cheb_fill fl x i m T = Inr T' \<and> length T' = length T \<and>
           (\<forall>k. k \<le> nat m \<longrightarrow> T' ! k = chebT k x)"
  using assms
proof (induction fl x i m T rule: cheb_fill.induct)
  case (1 fl x i m T)
  note ex = "1.prems"(1)
  show ?case
  proof (cases "i \<le> m")
    case False
    with "1.prems" have "i = m + 1" by simp
    with "1.prems" False show ?thesis
      by (subst cheb_fill.simps) (auto simp: nat_add_distrib)
  next
    case True
    define T' where "T' = T[nat i := fl (fl (fl (2 * x) * (T ! nat (i - 1))) - T ! nat (i - 2))]"
    have T'': "T' = T[nat i := (2 * x) * (T ! nat (i - 1)) - T ! nat (i - 2)]"
      by (simp add: T'_def ex exact_def)
    have r1: "rd T (i - 1) = Inr (T ! nat (i - 1))" and r2: "rd T (i - 2) = Inr (T ! nat (i - 2))"
      and w: "wr T i (fl (fl (fl (2 * x) * (T ! nat (i - 1))) - T ! nat (i - 2))) = Inr T'"
      using True "1.prems" by (simp_all add: T'_def)
    have step: "cheb_fill fl x i m T = cheb_fill fl x (i + 1) m T'"
      using True by (subst cheb_fill.simps) (simp add: r1 r2 w)
    obtain n where n: "nat i = Suc (Suc n)"
      using "1.prems"(2) by (metis Suc_nat_eq_nat_zadd1 add.commute nat_2 nat_mono numeral_2_eq_2 le_iff_add add_Suc zero_le)
    have ni: "nat (i - 1) = Suc n" "nat (i - 2) = n" using n by linarith+
    have len: "nat i < length T" using "1.prems" True by linarith
    have new: "T' ! nat i = chebT (nat i) x"
      using "1.prems"(5) len by (simp add: T'' ni) (simp add: n)
    have inv': "\<forall>k. k < nat (i + 1) \<longrightarrow> T' ! k = chebT k x"
    proof (intro allI impI)
      fix k assume "k < nat (i + 1)"
      then have "k < nat i \<or> k = nat i" using "1.prems"(2) by linarith
      then show "T' ! k = chebT k x"
        using new "1.prems"(5) by (auto simp: T'')
    qed
    have "\<exists>T''. cheb_fill fl x (i + 1) m T' = Inr T'' \<and> length T'' = length T' \<and>
           (\<forall>k. k \<le> nat m \<longrightarrow> T'' ! k = chebT k x)"
      using "1.IH"[OF True r1 r2 w ex] "1.prems" True inv' by (simp add: T'')
    then show ?thesis by (simp add: step T'')
  qed
qed

lemma cheb_sum_eq:
  assumes "fl = exact" "0 \<le> i" "i \<le> m + 1" "m + 1 \<le> int (length T)" "m + 1 \<le> int (length coef)"
  shows "cheb_sum fl coef T i m acc =
           Inr (acc + (\<Sum>k = nat i..<nat (m + 1). coef ! (nat m - k) * T ! k))"
  using assms
proof (induction fl coef T i m acc rule: cheb_sum.induct)
  case (1 fl coef T i m acc)
  note ex = "1.prems"(1)
  show ?case
  proof (cases "i \<le> m")
    case False
    with "1.prems" have "i = m + 1" by simp
    then show ?thesis using False by (subst cheb_sum.simps) simp
  next
    case True
    have r1: "rd coef (m - i) = Inr (coef ! (nat m - nat i))"
      using True "1.prems" by (simp add: nat_diff_distrib)
    have r2: "rd T i = Inr (T ! nat i)"
      using True "1.prems" by simp
    have step: "cheb_sum fl coef T i m acc =
        cheb_sum fl coef T (i + 1) m (fl (acc + fl (coef ! (nat m - nat i) * T ! nat i)))"
      using True by (subst cheb_sum.simps) (simp add: r1 r2)
    have lt: "nat i < nat (m + 1)" using True "1.prems" by linarith
    have suc: "nat (i + 1) = Suc (nat i)" using "1.prems"(2) by linarith
    have split: "(\<Sum>k = nat i..<nat (m + 1). coef ! (nat m - k) * T ! k) =
        coef ! (nat m - nat i) * T ! nat i + (\<Sum>k = nat (i + 1)..<nat (m + 1). coef ! (nat m - k) * T ! k)"
      unfolding suc by (rule sum.atLeast_Suc_lessThan[OF lt])
    have "cheb_sum fl coef T (i + 1) m (fl (acc + fl (coef ! (nat m - nat i) * T ! nat i))) =
        Inr (fl (acc + fl (coef ! (nat m - nat i) * T ! nat i)) +
             (\<Sum>k = nat (i + 1)..<nat (m + 1). coef ! (nat m - k) * T ! k))"
      using "1.IH"[OF True r1 r2 ex] "1.prems" True by simp
    then show ?thesis by (simp add: step split) (simp add: ex exact_def)
  qed
qed

lemma cheb_poly_eva_sum:
  assumes o2: "2 \<le> order" and len: "order div 2 + 1 \<le> int (length coef)"
    and h: "malloc heap (order div 2 + 1) \<noteq> None"
  shows "cheb_poly_eva exact heap coef x order =
           Inr (\<Sum>i = 0..nat (order div 2). coef ! (nat (order div 2) - i) * chebT i x)"
proof -
  define m where "m = order div 2"
  have m1: "1 \<le> m" using o2 by (simp add: m_def)
  have sd: "order sdiv 2 = m" using o2 by (simp add: sdiv2_nonneg m_def)
  obtain T0 where al: "malloc heap (m + 1) = Some T0"
    using h by (auto simp: m_def)
  have len0: "int (length T0) = m + 1" using al by (rule malloc_length)
  define T2 where "T2 = T0[0 := 1, 1 := x]"
  have w0: "wr T0 0 1 = Inr (T0[0 := 1])"
    using m1 len0 by simp
  have w1: "wr (T0[0 := 1]) 1 x = Inr T2"
    using m1 len0 by (simp add: T2_def)
  have lenT2: "int (length T2) = m + 1" using len0 by (simp add: T2_def)
  have "\<forall>k. k < nat 2 \<longrightarrow> T2 ! k = chebT k x"
  proof (intro allI impI)
    fix k :: nat assume "k < nat 2"
    then have "k = 0 \<or> k = 1" by auto
    moreover have "0 < length T0" "1 < length T0" using m1 len0 by linarith+
    ultimately show "T2 ! k = chebT k x" by (auto simp: T2_def)
  qed
  from cheb_fill_inv[OF refl _ _ lenT2 this] m1
  obtain T where T: "cheb_fill exact x 2 m T2 = Inr T" "length T = length T2"
    "\<forall>k. k \<le> nat m \<longrightarrow> T ! k = chebT k x" by auto
  have "cheb_sum exact coef T 0 m 0 = Inr (0 + (\<Sum>k = nat 0..<nat (m + 1). coef ! (nat m - k) * T ! k))"
    using m1 T(2) lenT2 len by (intro cheb_sum_eq) (simp_all add: m_def)
  also have "(\<Sum>k = nat 0..<nat (m + 1). coef ! (nat m - k) * T ! k) =
      (\<Sum>k = 0..nat m. coef ! (nat m - k) * chebT k x)"
    using m1 T(3) by (intro sum.cong) (auto simp: nat_add_distrib)
  finally have fin: "cheb_sum exact coef T 0 m 0 = Inr (\<Sum>k = 0..nat m. coef ! (nat m - k) * chebT k x)"
    by simp
  have "cheb_poly_eva exact heap coef x order = Inr (\<Sum>k = 0..nat m. coef ! (nat m - k) * chebT k x)"
    unfolding cheb_poly_eva_def sd by (simp add: al w0 w1 T(1) fin)
  then show ?thesis by (simp add: m_def)
qed


lemma cheb_poly_eva_small:
  assumes "order = 0 \<or> order = 1" "heap 1 \<noteq> None"
  shows "cheb_poly_eva fl heap coef x order = Inl OutOfBounds"
  using assms by (auto simp: cheb_poly_eva_def malloc_def signed_divide_int_def wr_def)



lemma cheb_fill_error: "cheb_fill fl x i m T = Inl e \<Longrightarrow> e = OutOfBounds"
proof (induction fl x i m T rule: cheb_fill.induct)
  case (1 fl x i m T)
  from "1.prems" show ?case
    by (subst (asm) cheb_fill.simps)
       (auto split: if_splits sum.splits dest: rd_error wr_error "1.IH")
qed

lemma cheb_sum_error: "cheb_sum fl coef T i m acc = Inl e \<Longrightarrow> e = OutOfBounds"
proof (induction fl coef T i m acc rule: cheb_sum.induct)
  case (1 fl coef T i m acc)
  from "1.prems" show ?case
    by (subst (asm) cheb_sum.simps)
       (auto split: if_splits sum.splits dest: rd_error "1.IH")
qed

lemma cheb_poly_eva_error: "cheb_poly_eva fl heap coef x order = Inl e \<Longrightarrow> e = OutOfBounds"
  by (auto simp: cheb_poly_eva_def split: option.splits sum.splits
      dest: wr_error cheb_fill_error cheb_sum_error)

lemma cheb_poly_eva_cases:
  "(\<exists>y. cheb_poly_eva fl heap coef x order = Inr y) \<or>
   (cheb_poly_eva fl heap coef x order = Inl OutOfBounds \<and>
    \<not> (2 \<le> order \<and> order div 2 + 1 \<le> int (length coef)))"
proof (cases "cheb_poly_eva fl heap coef x order")
  case (Inl e)
  then have "e = OutOfBounds" by (rule cheb_poly_eva_error)
  moreover have "\<not> (2 \<le> order \<and> order div 2 + 1 \<le> int (length coef))"
    using Inl cheb_poly_eva_no_fault[of order coef fl heap x] by auto
  ultimately show ?thesis using Inl by simp
next
  case (Inr y)
  then show ?thesis by simp
qed


lemma cheb_order23:
  "order = 2 \<or> order = 3 \<Longrightarrow>
     cheb_poly_eva fl heap_ok (c0 # c1 # cs) x order = Inr (fl (fl (0 + fl c1) + fl (c0 * x)))"
  by (auto simp: cheb_poly_eva_def malloc_def heap_ok_def signed_divide_int_def
      cheb_fill.simps cheb_sum.simps eval_nat_numeral)

text \<open>
  Claim C10. For every even \<open>order \<ge> 2\<close> and every \<open>coef\<close> of \<open>order / 2 + 1\<close> entries,
  every access of \<^verbatim>\<open>cheb_poly_eva\<close> to its scratch buffer and to \<open>coef\<close> is within bounds:
  the checked model returns a value, never \<open>OutOfBounds\<close>, whatever the rounding. The bound
  on \<open>order\<close> is needed: for \<open>order = 0\<close> the buffer has one element and the store to \<open>T[1]\<close>
  is outside it.
\<close>

theorem cheb_poly_eva_in_bounds:
  "(even order \<and> 2 \<le> order \<and> int (length coef) = order div 2 + 1
      \<longrightarrow> (\<exists>y. cheb_poly_eva fl heap coef x order = Inr y)) \<and>
   (heap 1 \<noteq> None \<longrightarrow> cheb_poly_eva fl heap coef x 0 = Inl OutOfBounds)"
  using cheb_poly_eva_no_fault [of order coef fl heap x] cheb_poly_eva_small [of 0 heap fl coef x]
  by simp

theorem cheb_poly_eva_in_bounds_witness:
  "even (2::int) \<and> (2::int) \<le> 2 \<and> int (length [2, - 5 / 4 :: real]) = 2 div 2 + 1 \<and>
   (\<exists>y. cheb_poly_eva fl32 heap_ok [2, - 5 / 4] (3 / 4) 2 = Inr y) \<and> heap_ok 1 \<noteq> None \<and>
   cheb_poly_eva fl32 heap_ok [2, - 5 / 4] (3 / 4) 0 = Inl OutOfBounds"
  using cheb_poly_eva_in_bounds [of 2 "[2, - 5 / 4]" fl32 heap_ok "3 / 4"]
  by (simp add: heap_ok_def)

text \<open>
  Claim C8. The specification lets \<^verbatim>\<open>cheb_poly_eva\<close> return \<open>coef[0]\<close> for \<open>order = 0\<close>. The
  code stores to \<open>T[1]\<close> in a buffer of \<open>order / 2 + 1 = 1\<close> element, for \<open>order = 0\<close> and
  for \<open>order = 1\<close> alike, before it computes the sum, whatever the rounding. For
  \<open>order \<ge> 2\<close> the sum is the one of the specification, in exact arithmetic
  (\<open>cheb_poly_eva_sum\<close>).
\<close>

theorem cheb_poly_eva_order_below_2:
  "cheb_poly_eva fl heap_ok [c] x 0 = Inl OutOfBounds \<and>
   cheb_poly_eva fl heap_ok [c] x 1 = Inl OutOfBounds"
  by (simp add: cheb_poly_eva_small heap_ok_def)


section \<open>Loops as repeated bodies\<close>

lemma repeat_Suc_front:
  "repeat (Suc k) f s = (case f 0 s of Inl e \<Rightarrow> Inl e | Inr s' \<Rightarrow> repeat k (\<lambda>i. f (Suc i)) s')"
proof (induction k)
  case 0
  show ?case by (simp split: sum.splits)
next
  case (Suc k)
  have "repeat (Suc (Suc k)) f s =
      (case repeat (Suc k) f s of Inl e \<Rightarrow> Inl e | Inr s' \<Rightarrow> f (Suc k) s')" by simp
  also have "\<dots> = (case f 0 s of Inl e \<Rightarrow> Inl e
                    | Inr s' \<Rightarrow> repeat (Suc k) (\<lambda>i. f (Suc i)) s')"
    unfolding Suc.IH by (simp split: sum.splits)
  finally show ?case .
qed

lemma repeat_invariant:
  assumes "repeat n f s = Inr s'" and "I 0 s"
    and "\<And>k t t'. k < n \<Longrightarrow> I k t \<Longrightarrow> f k t = Inr t' \<Longrightarrow> I (Suc k) t'"
  shows "I n s'"
  using assms
proof (induction n arbitrary: s')
  case 0
  then show ?case by simp
next
  case (Suc n)
  from Suc.prems(1) obtain t where t: "repeat n f s = Inr t" and ft: "f n t = Inr s'"
    by (auto split: sum.splits)
  have "I n t" using Suc.IH[OF t Suc.prems(2)] Suc.prems(3) by simp
  then show ?case using Suc.prems(3)[of n t s'] ft by simp
qed

lemma repeat_error:
  assumes "repeat n f s = Inl e" and "\<And>k t e. f k t = Inl e \<Longrightarrow> P e"
  shows "P e"
  using assms(1)
proof (induction n arbitrary: e)
  case 0
  then show ?case by simp
next
  case (Suc n)
  then show ?case by (auto split: sum.splits intro: assms(2))
qed

lemma repeat_total:
  assumes "\<And>k t. \<exists>t'. f k t = Inr t'"
  shows "\<exists>s'. repeat n f s = Inr s'"
proof (induction n)
  case 0
  show ?case by simp
next
  case (Suc n)
  then obtain t where "repeat n f s = Inr t" by blast
  then show ?case using assms[of n t] by simp
qed

lemma repeat_ok:
  assumes "I 0 s"
    and "\<And>k t. k < n \<Longrightarrow> I k t \<Longrightarrow>
           (\<exists>t'. f k t = Inr t' \<and> I (Suc k) t') \<or> (f k t = Inl OutOfBounds \<and> \<not> W)"
  shows "(\<exists>s'. repeat n f s = Inr s' \<and> I n s') \<or> (repeat n f s = Inl OutOfBounds \<and> \<not> W)"
  using assms(2)
proof (induction n)
  case 0
  show ?case using assms(1) by simp
next
  case (Suc n)
  have "(\<exists>s'. repeat n f s = Inr s' \<and> I n s') \<or> (repeat n f s = Inl OutOfBounds \<and> \<not> W)"
    by (rule Suc.IH) (use Suc.prems in auto)
  then show ?case
  proof
    assume "\<exists>s'. repeat n f s = Inr s' \<and> I n s'"
    then obtain t where t: "repeat n f s = Inr t" "I n t" by blast
    from Suc.prems[of n t] t(2) show ?thesis by (auto simp: t(1))
  next
    assume "repeat n f s = Inl OutOfBounds \<and> \<not> W"
    then show ?thesis by simp
  qed
qed

lemma repeat_total_inv:
  assumes "I s" and "\<And>k t. k < n \<Longrightarrow> I t \<Longrightarrow> \<exists>t'. f k t = Inr t' \<and> I t'"
  shows "\<exists>s'. repeat n f s = Inr s' \<and> I s'"
  using assms(2)
proof (induction n)
  case 0
  show ?case using assms(1) by simp
next
  case (Suc n)
  have "\<exists>s'. repeat n f s = Inr s' \<and> I s'"
    by (rule Suc.IH) (use Suc.prems in auto)
  then obtain t where t: "repeat n f s = Inr t" "I t" by blast
  from Suc.prems[of n t] t(2) show ?case by (auto simp: t(1))
qed


section \<open>The coefficients of P' and Q'\<close>

lemma pq_fill_inv:
  assumes "1 \<le> i" "i \<le> m + 1" "m \<le> order" "order + 1 \<le> int (length a)"
    and "m + 1 \<le> int (length P)" "m + 1 \<le> int (length Q)"
    and "\<forall>k. k < nat i \<longrightarrow> P ! k = P_spec fl a (nat order) k \<and> Q ! k = Q_spec fl a (nat order) k"
  shows "\<exists>P' Q'. pq_fill fl a order i m P Q = Inr (P', Q') \<and>
           length P' = length P \<and> length Q' = length Q \<and>
           (\<forall>k. k \<le> nat m \<longrightarrow> P' ! k = P_spec fl a (nat order) k \<and> Q' ! k = Q_spec fl a (nat order) k)"
  using assms
proof (induction fl a order i m P Q rule: pq_fill.induct)
  case (1 fl a order i m P Q)
  show ?case
  proof (cases "i \<le> m")
    case False
    with "1.prems" have im: "i = m + 1" by simp
    have res: "pq_fill fl a order i m P Q = Inr (P, Q)"
      using False by (subst pq_fill.simps) simp
    have "k < nat i" if "k \<le> nat m" for k
      using that im "1.prems"(1) by linarith
    then show ?thesis using "1.prems"(7) by (simp add: res)
  next
    case True
    define n where "n = nat (i - 1)"
    have n: "nat i = Suc n" and n1: "nat (i - 1) = n"
      using "1.prems"(1) by (simp_all add: n_def)
    define ai where "ai = a ! nat i"
    define aj where "aj = a ! nat (order + 1 - i)"
    define P' where "P' = P[nat i := fl (fl (ai + aj) - P ! nat (i - 1))]"
    define Q' where "Q' = Q[nat i := fl (fl (ai - aj) + Q ! nat (i - 1))]"
    have r1: "rd a i = Inr ai" and r2: "rd a (order + 1 - i) = Inr aj"
      and r3: "rd P (i - 1) = Inr (P ! nat (i - 1))" and r4: "rd Q (i - 1) = Inr (Q ! nat (i - 1))"
      and w1: "wr P i (fl (fl (ai + aj) - P ! nat (i - 1))) = Inr P'"
      and w2: "wr Q i (fl (fl (ai - aj) + Q ! nat (i - 1))) = Inr Q'"
      using True "1.prems" by (simp_all add: ai_def aj_def P'_def Q'_def)
    have step: "pq_fill fl a order i m P Q = pq_fill fl a order (i + 1) m P' Q'"
      using True by (subst pq_fill.simps) (simp add: r1 r2 r3 r4 w1 w2)
    have idx: "nat (order + 1 - i) = nat order + 1 - Suc n"
      using n "1.prems"(1) True "1.prems"(3) by linarith
    have lenP: "nat i < length P" and lenQ: "nat i < length Q" using "1.prems" True by linarith+
    have old: "P ! n = P_spec fl a (nat order) n" "Q ! n = Q_spec fl a (nat order) n"
      using "1.prems"(7) n by simp_all
    have new: "P' ! nat i = P_spec fl a (nat order) (nat i)" "Q' ! nat i = Q_spec fl a (nat order) (nat i)"
      using lenP lenQ old by (simp_all add: P'_def Q'_def n1 ai_def aj_def idx) (simp_all add: n)
    have inv': "\<forall>k. k < nat (i + 1) \<longrightarrow>
        P' ! k = P_spec fl a (nat order) k \<and> Q' ! k = Q_spec fl a (nat order) k"
    proof (intro allI impI)
      fix k assume "k < nat (i + 1)"
      then have "k < nat i \<or> k = nat i" using "1.prems"(1) by linarith
      then show "P' ! k = P_spec fl a (nat order) k \<and> Q' ! k = Q_spec fl a (nat order) k"
      proof
        assume "k < nat i"
        then show ?thesis using "1.prems"(7) by (simp add: P'_def Q'_def)
      next
        assume "k = nat i"
        then show ?thesis using new by simp
      qed
    qed
    have "\<exists>P'' Q''. pq_fill fl a order (i + 1) m P' Q' = Inr (P'', Q'') \<and>
           length P'' = length P' \<and> length Q'' = length Q' \<and>
           (\<forall>k. k \<le> nat m \<longrightarrow> P'' ! k = P_spec fl a (nat order) k \<and> Q'' ! k = Q_spec fl a (nat order) k)"
      using "1.IH"[OF True r1 r2 r3 w1 r4 w2] "1.prems" True inv' by (simp add: P'_def Q'_def)
    then show ?thesis by (simp add: step P'_def Q'_def)
  qed
qed

lemma pq_double_inv:
  assumes "0 \<le> i" "m \<le> int (length P)" "m \<le> int (length Q)"
  shows "\<exists>P' Q'. pq_double fl i m P Q = Inr (P', Q') \<and>
           length P' = length P \<and> length Q' = length Q \<and>
           (\<forall>k. k < length P \<longrightarrow> P' ! k = (if nat i \<le> k \<and> k < nat m then fl (2 * P ! k) else P ! k)) \<and>
           (\<forall>k. k < length Q \<longrightarrow> Q' ! k = (if nat i \<le> k \<and> k < nat m then fl (2 * Q ! k) else Q ! k))"
  using assms
proof (induction fl i m P Q rule: pq_double.induct)
  case (1 fl i m P Q)
  show ?case
  proof (cases "i < m")
    case False
    then show ?thesis using "1.prems" by (subst pq_double.simps) auto
  next
    case True
    define P' where "P' = P[nat i := fl (2 * P ! nat i)]"
    define Q' where "Q' = Q[nat i := fl (2 * Q ! nat i)]"
    have r1: "rd P i = Inr (P ! nat i)" and w1: "wr P i (fl (2 * P ! nat i)) = Inr P'"
      and r2: "rd Q i = Inr (Q ! nat i)" and w2: "wr Q i (fl (2 * Q ! nat i)) = Inr Q'"
      using True "1.prems" by (simp_all add: P'_def Q'_def rd_def wr_def)
    have step: "pq_double fl i m P Q = pq_double fl (i + 1) m P' Q'"
      using True by (subst pq_double.simps) (simp add: r1 r2 w1 w2)
    obtain P'' Q'' where IH: "pq_double fl (i + 1) m P' Q' = Inr (P'', Q'')"
      "length P'' = length P'" "length Q'' = length Q'"
      "\<forall>k. k < length P' \<longrightarrow> P'' ! k = (if nat (i + 1) \<le> k \<and> k < nat m then fl (2 * P' ! k) else P' ! k)"
      "\<forall>k. k < length Q' \<longrightarrow> Q'' ! k = (if nat (i + 1) \<le> k \<and> k < nat m then fl (2 * Q' ! k) else Q' ! k)"
      using "1.IH"[OF True r1 w1 r2 w2] "1.prems" by (auto simp: P'_def Q'_def)
    have suc: "nat (i + 1) = Suc (nat i)" using "1.prems"(1) by linarith
    have lt: "nat i < nat m" using True "1.prems"(1) by linarith
    have upd: "(if nat (i + 1) \<le> k \<and> k < nat m then fl (2 * (X[nat i := fl (2 * X ! nat i)]) ! k)
                else (X[nat i := fl (2 * X ! nat i)]) ! k) =
               (if nat i \<le> k \<and> k < nat m then fl (2 * X ! k) else X ! k)"
      if "k < length X" for k and X :: "real list"
    proof (cases "k = nat i")
      case True
      then show ?thesis using lt that by (simp add: suc)
    next
      case False
      then have "nat (i + 1) \<le> k \<longleftrightarrow> nat i \<le> k" unfolding suc by linarith
      then show ?thesis using False by simp
    qed
    have "\<forall>k. k < length P \<longrightarrow> P'' ! k = (if nat i \<le> k \<and> k < nat m then fl (2 * P ! k) else P ! k)"
    proof (intro allI impI)
      fix k assume k: "k < length P"
      have "P'' ! k = (if nat (i + 1) \<le> k \<and> k < nat m then fl (2 * P' ! k) else P' ! k)"
        using IH(4) k by (simp add: P'_def)
      also have "\<dots> = (if nat i \<le> k \<and> k < nat m then fl (2 * P ! k) else P ! k)"
        unfolding P'_def by (rule upd[OF k])
      finally show "P'' ! k = (if nat i \<le> k \<and> k < nat m then fl (2 * P ! k) else P ! k)" .
    qed
    moreover have "\<forall>k. k < length Q \<longrightarrow> Q'' ! k = (if nat i \<le> k \<and> k < nat m then fl (2 * Q ! k) else Q ! k)"
    proof (intro allI impI)
      fix k assume k: "k < length Q"
      have "Q'' ! k = (if nat (i + 1) \<le> k \<and> k < nat m then fl (2 * Q' ! k) else Q' ! k)"
        using IH(5) k by (simp add: Q'_def)
      also have "\<dots> = (if nat i \<le> k \<and> k < nat m then fl (2 * Q ! k) else Q ! k)"
        unfolding Q'_def by (rule upd[OF k])
      finally show "Q'' ! k = (if nat i \<le> k \<and> k < nat m then fl (2 * Q ! k) else Q ! k)" .
    qed
    ultimately show ?thesis using IH(1,2,3) by (simp add: step P'_def Q'_def)
  qed
qed

lemma pq_fill_error: "pq_fill fl a order i m P Q = Inl e \<Longrightarrow> e = OutOfBounds"
proof (induction fl a order i m P Q rule: pq_fill.induct)
  case (1 fl a order i m P Q)
  from "1.prems" show ?case
    by (subst (asm) pq_fill.simps)
       (auto split: if_splits sum.splits dest: rd_error wr_error "1.IH")
qed

lemma pq_fill_length:
  "pq_fill fl a order i m P Q = Inr (P', Q') \<Longrightarrow> length P' = length P \<and> length Q' = length Q"
proof (induction fl a order i m P Q rule: pq_fill.induct)
  case (1 fl a order i m P Q)
  show ?case
  proof (cases "i \<le> m")
    case False
    then show ?thesis using "1.prems" by (subst (asm) pq_fill.simps) simp
  next
    case True
    from "1.prems" True obtain ai aj p P1 q Q1 where
      r: "rd a i = Inr ai" "rd a (order + 1 - i) = Inr aj" "rd P (i - 1) = Inr p"
         "wr P i (fl (fl (ai + aj) - p)) = Inr P1" "rd Q (i - 1) = Inr q" "wr Q i (fl (fl (ai - aj) + q)) = Inr Q1"
      and rec: "pq_fill fl a order (i + 1) m P1 Q1 = Inr (P', Q')"
      by (subst (asm) pq_fill.simps) (auto split: sum.splits)
    from "1.IH"[OF True r rec] wr_length[OF r(4)] wr_length[OF r(6)] show ?thesis by simp
  qed
qed

lemma pq_double_error: "pq_double fl i m P Q = Inl e \<Longrightarrow> e = OutOfBounds"
proof (induction fl i m P Q rule: pq_double.induct)
  case (1 fl i m P Q)
  from "1.prems" show ?case
    by (subst (asm) pq_double.simps)
       (auto split: if_splits sum.splits dest: rd_error wr_error "1.IH")
qed

lemma pq_double_length:
  "pq_double fl i m P Q = Inr (P', Q') \<Longrightarrow> length P' = length P \<and> length Q' = length Q"
proof (induction fl i m P Q rule: pq_double.induct)
  case (1 fl i m P Q)
  show ?case
  proof (cases "i < m")
    case False
    then show ?thesis using "1.prems" by (subst (asm) pq_double.simps) simp
  next
    case True
    from "1.prems" True obtain p P1 q Q1 where
      r: "rd P i = Inr p" "wr P i (fl (2 * p)) = Inr P1" "rd Q i = Inr q" "wr Q i (fl (2 * q)) = Inr Q1"
      and rec: "pq_double fl (i + 1) m P1 Q1 = Inr (P', Q')"
      by (subst (asm) pq_double.simps) (auto split: sum.splits)
    from "1.IH"[OF True r rec] wr_length[OF r(2)] wr_length[OF r(4)] show ?thesis by simp
  qed
qed

lemma lpc_pq_error: "lpc_pq fl a order P0 Q0 = Inl e \<Longrightarrow> e = OutOfBounds"
  by (auto simp: lpc_pq_def split: sum.splits prod.splits
      dest: wr_error pq_fill_error pq_double_error)

lemma lpc_pq_length:
  assumes "lpc_pq fl a order P0 Q0 = Inr (P, Q)"
  shows "length P = length P0 \<and> length Q = length Q0"
proof -
  from assms obtain P1 Q1 P2 Q2 where
    w: "wr P0 0 1 = Inr P1" "wr Q0 0 1 = Inr Q1"
    and f: "pq_fill fl a order 1 (order sdiv 2) P1 Q1 = Inr (P2, Q2)"
    and d: "pq_double fl 0 (order sdiv 2) P2 Q2 = Inr (P, Q)"
    by (auto simp: lpc_pq_def split: sum.splits prod.splits)
  from wr_length[OF w(1)] wr_length[OF w(2)] pq_fill_length[OF f] pq_double_length[OF d]
  show ?thesis by simp
qed

lemma lpc_pq_result:
  assumes "0 \<le> order" "order + 1 \<le> int (length a)"
    and "order + 1 \<le> int (length P0)" "order + 1 \<le> int (length Q0)"
  shows "\<exists>P Q. lpc_pq fl a order P0 Q0 = Inr (P, Q) \<and>
           (\<forall>i. i \<le> nat (order div 2) \<longrightarrow>
              P ! i = doubled fl (nat (order div 2)) (P_spec fl a (nat order)) i \<and>
              Q ! i = doubled fl (nat (order div 2)) (Q_spec fl a (nat order)) i)"
proof -
  define m where "m = order div 2"
  have m0: "0 \<le> m" and mo: "m \<le> order" using assms(1) by (simp_all add: m_def)
  have sd: "order sdiv 2 = m" using assms(1) by (simp add: sdiv2_nonneg m_def)
  define P1 where "P1 = P0[0 := 1]"
  define Q1 where "Q1 = Q0[0 := 1]"
  have ne: "0 < length P0" "0 < length Q0" using assms(1,3,4) by linarith+
  have w: "wr P0 0 1 = Inr P1" "wr Q0 0 1 = Inr Q1"
    using ne by (simp_all add: P1_def Q1_def)
  have len1: "m + 1 \<le> int (length P1)" "m + 1 \<le> int (length Q1)"
    using assms mo by (simp_all add: P1_def Q1_def)
  have init: "\<forall>k. k < nat 1 \<longrightarrow> P1 ! k = P_spec fl a (nat order) k \<and> Q1 ! k = Q_spec fl a (nat order) k"
    using ne by (simp add: P1_def Q1_def)
  have m1: "1 \<le> m + 1" using m0 by simp
  obtain P2 Q2 where f: "pq_fill fl a order 1 m P1 Q1 = Inr (P2, Q2)"
    "length P2 = length P1" "length Q2 = length Q1"
    "\<forall>k. k \<le> nat m \<longrightarrow> P2 ! k = P_spec fl a (nat order) k \<and> Q2 ! k = Q_spec fl a (nat order) k"
    using pq_fill_inv[OF order_refl m1 mo assms(2) len1 init] by blast
  have len2: "m \<le> int (length P2)" "m \<le> int (length Q2)"
    using len1 f(2,3) by simp_all
  obtain P Q where d: "pq_double fl 0 m P2 Q2 = Inr (P, Q)"
    "\<forall>k. k < length P2 \<longrightarrow> P ! k = (if nat 0 \<le> k \<and> k < nat m then fl (2 * P2 ! k) else P2 ! k)"
    "\<forall>k. k < length Q2 \<longrightarrow> Q ! k = (if nat 0 \<le> k \<and> k < nat m then fl (2 * Q2 ! k) else Q2 ! k)"
    using pq_double_inv[OF order_refl len2] by blast
  have "P ! i = doubled fl (nat m) (P_spec fl a (nat order)) i \<and>
        Q ! i = doubled fl (nat m) (Q_spec fl a (nat order)) i" if "i \<le> nat m" for i
  proof -
    have "i < length P2" "i < length Q2" using that len1 f(2,3) m0 by linarith+
    then show ?thesis using d(2,3) f(4) that by (simp add: doubled_def)
  qed
  moreover have "lpc_pq fl a order P0 Q0 = Inr (P, Q)"
    unfolding lpc_pq_def sd by (simp add: w f(1) d(1))
  ultimately show ?thesis unfolding m_def by blast
qed

lemma lpc_pq_cases:
  "(\<exists>P Q. lpc_pq fl a order P0 Q0 = Inr (P, Q) \<and> length P = length P0 \<and> length Q = length Q0) \<or>
   (lpc_pq fl a order P0 Q0 = Inl OutOfBounds \<and>
    \<not> (0 \<le> order \<and> order + 1 \<le> int (length a) \<and>
       order + 1 \<le> int (length P0) \<and> order + 1 \<le> int (length Q0)))"
proof (cases "lpc_pq fl a order P0 Q0")
  case (Inl e)
  then have "e = OutOfBounds" by (rule lpc_pq_error)
  moreover have "\<not> (0 \<le> order \<and> order + 1 \<le> int (length a) \<and>
       order + 1 \<le> int (length P0) \<and> order + 1 \<le> int (length Q0))"
    using Inl lpc_pq_result[of order a P0 Q0 fl] by auto
  ultimately show ?thesis using Inl by simp
next
  case (Inr r)
  obtain P Q where "r = (P, Q)" by (cases r)
  then show ?thesis using Inr lpc_pq_length[of fl a order P0 Q0 P Q] by simp
qed

text \<open>
  Claim C7. For an LPC vector \<open>a[0..order]\<close> of even order, lines 162 to 185 leave in
  \<open>P[0..order/2]\<close> and \<open>Q[0..order/2]\<close> the polynomials of the specification's recurrence
  (\<open>P_spec\<close>, \<open>Q_spec\<close>) with every entry but the last doubled, the operations of the
  recurrence rounded as those of the code are, whatever the rounding (none included). \<open>P0\<close> and \<open>Q0\<close> are the
  two buffers of \<open>order + 1\<close> elements as \<^verbatim>\<open>malloc\<close> hands them over, whatever they hold.
\<close>

theorem lpc_pq_spec:
  assumes "even order" "0 \<le> order" "int (length a) = order + 1"
    and "int (length P0) = order + 1" "int (length Q0) = order + 1"
  shows "\<exists>P Q. lpc_pq fl a order P0 Q0 = Inr (P, Q) \<and>
           (\<forall>i. i \<le> nat (order div 2) \<longrightarrow>
              P ! i = doubled fl (nat (order div 2)) (P_spec fl a (nat order)) i \<and>
              Q ! i = doubled fl (nat (order div 2)) (Q_spec fl a (nat order)) i)"
  using assms by (intro lpc_pq_result) simp_all

theorem lpc_pq_spec_witness:
  "even (2::int) \<and> (0::int) \<le> 2 \<and> int (length [1, 1 / 2, - 3 / 4 :: real]) = 2 + 1 \<and>
   int (length [0, 0, 0 :: real]) = 2 + 1 \<and>
   lpc_pq fl32 [1, 1 / 2, - 3 / 4] 2 [0, 0, 0] [0, 0, 0] = Inr ([2, - 5 / 4, 0], [2, 9 / 4, 0]) \<and>
   doubled fl32 (nat (2 div 2)) (P_spec fl32 [1, 1 / 2, - 3 / 4] (nat 2)) 0 = 2 \<and>
   doubled fl32 (nat (2 div 2)) (P_spec fl32 [1, 1 / 2, - 3 / 4] (nat 2)) 1 = - 5 / 4 \<and>
   doubled fl32 (nat (2 div 2)) (Q_spec fl32 [1, 1 / 2, - 3 / 4] (nat 2)) 0 = 2 \<and>
   doubled fl32 (nat (2 div 2)) (Q_spec fl32 [1, 1 / 2, - 3 / 4] (nat 2)) 1 = 9 / 4"
proof -
  have e: "lpc_pq fl32 [1, 1 / 2, - 3 / 4] 2 [0, 0, 0] [0, 0, 0] = Inr ([2, - 5 / 4, 0], [2, 9 / 4, 0])"
    by (simp add: lpc_pq_def pq_fill.simps pq_double.simps rd_def wr_def signed_divide_int_def
        fl32_eval)
  obtain P Q where pq: "lpc_pq fl32 [1, 1 / 2, - 3 / 4] 2 [0, 0, 0] [0, 0, 0] = Inr (P, Q)"
    and sp: "\<forall>i. i \<le> nat (2 div 2) \<longrightarrow>
      P ! i = doubled fl32 (nat (2 div 2)) (P_spec fl32 [1, 1 / 2, - 3 / 4] (nat 2)) i \<and>
      Q ! i = doubled fl32 (nat (2 div 2)) (Q_spec fl32 [1, 1 / 2, - 3 / 4] (nat 2)) i"
    using lpc_pq_spec [of 2 "[1, 1 / 2, - 3 / 4]" "[0, 0, 0]" "[0, 0, 0]" fl32] by auto
  have "P = [2, - 5 / 4, 0]" "Q = [2, 9 / 4, 0]" using pq unfolding e by simp_all
  with sp have "\<forall>i. i \<le> nat (2 div 2) \<longrightarrow>
      [2, - 5 / 4, 0] ! i = doubled fl32 (nat (2 div 2)) (P_spec fl32 [1, 1 / 2, - 3 / 4] (nat 2)) i \<and>
      [2, 9 / 4, 0] ! i = doubled fl32 (nat (2 div 2)) (Q_spec fl32 [1, 1 / 2, - 3 / 4] (nat 2)) i"
    by simp
  from this [rule_format, of 0] this [rule_format, of 1] e show ?thesis by simp
qed


section \<open>The bisection\<close>

lemma rounding_mono: "is_rounding fl \<Longrightarrow> x \<le> y \<Longrightarrow> fl x \<le> fl y"
  by (simp add: is_rounding_def)

lemma rounding_idem: "is_rounding fl \<Longrightarrow> fl (fl x) = fl x"
  by (simp add: is_rounding_def)

lemma rounding_double: "is_rounding fl \<Longrightarrow> fl x = x \<Longrightarrow> fl (2 * x) = 2 * x"
  by (simp add: is_rounding_def)

lemma rounding_consts: "is_rounding fl \<Longrightarrow> fl 0 = 0 \<and> fl 1 = 1"
  by (simp add: is_rounding_def)

lemma rounding_below: "is_rounding fl \<Longrightarrow> fl a = a \<Longrightarrow> x \<le> a \<Longrightarrow> fl x \<le> a"
  using rounding_mono [of fl x a] by simp

lemma rounding_above: "is_rounding fl \<Longrightarrow> fl a = a \<Longrightarrow> a \<le> x \<Longrightarrow> a \<le> fl x"
  using rounding_mono [of fl a x] by simp

text \<open>The rounded midpoint of two floats lies between them; it may be one of them.\<close>

lemma mid_between:
  assumes "is_rounding fl" "fl a = a" "fl b = b" "b \<le> a"
  shows "b \<le> fl (fl (a + b) / 2) \<and> fl (fl (a + b) / 2) \<le> a"
proof -
  have da: "fl (2 * a) = 2 * a" and db: "fl (2 * b) = 2 * b"
    using assms(1,2,3) by (simp_all add: rounding_double)
  have "2 * b \<le> fl (a + b)"
    using rounding_above [OF assms(1) db, of "a + b"] assms(4) by simp
  moreover have "fl (a + b) \<le> 2 * a"
    using rounding_below [OF assms(1) da, of "a + b"] assms(4) by simp
  ultimately have "b \<le> fl (a + b) / 2" "fl (a + b) / 2 \<le> a" by simp_all
  then show ?thesis
    using rounding_above [OF assms(1,3)] rounding_below [OF assms(1,2)] by simp
qed

lemma bisect_repeat:
  "nb < INT_MAX \<Longrightarrow>
     bisect fl heap pt order k nb s = repeat (nat (nb + 1 - k)) (\<lambda>i. bisect_step fl heap pt order) s"
proof (induction fl heap pt order k nb s rule: bisect.induct)
  case (1 fl heap pt order k nb s)
  show ?case
  proof (cases "k \<le> nb")
    case False
    then show ?thesis by (subst bisect.simps) simp
  next
    case True
    then have n: "nat (nb + 1 - k) = Suc (nat (nb + 1 - (k + 1)))" by linarith
    have k: "\<not> INT_MAX \<le> k" using True "1.prems" by simp
    show ?thesis
      unfolding n repeat_Suc_front
      using True k "1.IH" "1.prems" by (subst bisect.simps) (simp split: sum.splits)
  qed
qed

lemma bisect_step_Inr:
  assumes "bisect_step fl heap pt order s = Inr s'"
  shows "xm s' = fl (fl (xl s + xr s) / 2)" and "roots s' = roots s" and "freq s' = freq s"
    and "flag s' = flag s"
    and "(xl s' = xm s' \<and> xr s' = xr s) \<or> (xr s' = xm s' \<and> xl s' = xl s \<and> psuml s' = psuml s)"
  using assms by (auto simp: bisect_step_def Let_def split: sum.splits if_splits)

lemma bisect_step_error: "bisect_step fl heap pt order s = Inl e \<Longrightarrow> e = OutOfBounds"
  by (auto simp: bisect_step_def Let_def split: sum.splits if_splits dest: cheb_poly_eva_error)

lemma bisect_step_total:
  assumes "2 \<le> order" "order div 2 + 1 \<le> int (length pt)"
  shows "\<exists>s'. bisect_step fl heap pt order s = Inr s'"
proof -
  obtain y where "cheb_poly_eva fl heap pt (fl (fl (xl s + xr s) / 2)) order = Inr y"
    using cheb_poly_eva_no_fault[OF assms] by blast
  then show ?thesis by (simp add: bisect_step_def Let_def)
qed

lemma bisect_error:
  "bisect fl heap pt order k nb s = Inl e \<Longrightarrow>
     e = OutOfBounds \<or> (e = IntOverflow \<and> INT_MAX \<le> nb)"
proof (induction fl heap pt order k nb s rule: bisect.induct)
  case (1 fl heap pt order k nb s)
  from "1.prems" show ?case
    by (subst (asm) bisect.simps)
       (auto split: if_splits sum.splits dest: bisect_step_error "1.IH")
qed

text \<open>For \<open>nb = INT_MAX\<close> the loop does not end by its test.\<close>

lemma bisect_overflow:
  assumes "2 \<le> order" "order div 2 + 1 \<le> int (length pt)" "k \<le> INT_MAX"
  shows "bisect fl heap pt order k INT_MAX s = Inl IntOverflow"
  using assms
proof (induction fl heap pt order k "INT_MAX" s rule: bisect.induct)
  case (1 fl heap pt order k s)
  obtain s' where s': "bisect_step fl heap pt order s = Inr s'"
    using bisect_step_total [OF "1.prems"(1,2)] by blast
  show ?case
  proof (cases "INT_MAX \<le> k")
    case True
    then show ?thesis using "1.prems" by (subst bisect.simps) (simp add: s')
  next
    case False
    then have "bisect fl heap pt order (k + 1) INT_MAX s' = Inl IntOverflow"
      using "1.hyps" [OF "1.prems"(3) s' False] "1.prems" by simp
    then show ?thesis using "1.prems" False by (subst bisect.simps) (simp add: s')
  qed
qed

lemma bisect_cases:
  assumes "nb < INT_MAX"
  shows "(\<exists>s'. bisect fl heap pt order k nb s = Inr s') \<or>
         (bisect fl heap pt order k nb s = Inl OutOfBounds \<and>
          \<not> (2 \<le> order \<and> order div 2 + 1 \<le> int (length pt)))"
proof (cases "bisect fl heap pt order k nb s")
  case (Inl e)
  then have "e = OutOfBounds" using bisect_error [OF Inl] assms by auto
  moreover have "\<not> (2 \<le> order \<and> order div 2 + 1 \<le> int (length pt))"
  proof
    assume "2 \<le> order \<and> order div 2 + 1 \<le> int (length pt)"
    then have "\<exists>s'. repeat (nat (nb + 1 - k)) (\<lambda>i. bisect_step fl heap pt order) s = Inr s'"
      by (intro repeat_total bisect_step_total) simp_all
    then show False using Inl assms by (simp add: bisect_repeat)
  qed
  ultimately show ?thesis using Inl by simp
next
  case (Inr s')
  then show ?thesis by simp
qed

lemma bisect_invariant:
  assumes "bisect fl heap pt order k nb s = Inr s'" and "I s"
    and "\<And>t t'. I t \<Longrightarrow> bisect_step fl heap pt order t = Inr t' \<Longrightarrow> I t'"
  shows "I s'"
  using assms
proof (induction fl heap pt order k nb s rule: bisect.induct)
  case (1 fl heap pt order k nb s)
  show ?case
  proof (cases "k \<le> nb")
    case False
    then have "s' = s" using "1.prems"(1) by (subst (asm) bisect.simps) simp
    then show ?thesis using "1.prems"(2) by simp
  next
    case True
    from "1.prems"(1) True obtain t where t: "bisect_step fl heap pt order s = Inr t"
      and k: "\<not> INT_MAX \<le> k" and rec: "bisect fl heap pt order (k + 1) nb t = Inr s'"
      by (subst (asm) bisect.simps) (auto split: sum.splits if_splits)
    have "I t" using "1.prems"(2) t by (rule "1.prems"(3))
    then show ?thesis using "1.IH" [OF True t k rec] "1.prems"(3) by blast
  qed
qed

lemma bisect_keeps:
  assumes "bisect fl heap pt order k nb s = Inr s'"
  shows "roots s' = roots s \<and> freq s' = freq s \<and> flag s' = flag s"
  using assms
  by (rule bisect_invariant [where I = "\<lambda>t. roots t = roots s \<and> freq t = freq s \<and> flag t = flag s"])
     (auto dest: bisect_step_Inr(2,3,4))

text \<open>
  A bisection step keeps a bracket of floats within the bracket it had, with \<open>xm\<close> in it.
\<close>

lemma bisect_step_bracket:
  assumes "bisect_step fl heap pt order t = Inr t'" "is_rounding fl"
    and "fl (xl t) = xl t" "fl (xr t) = xr t" "xr t \<le> xl t"
  shows "fl (xl t') = xl t' \<and> fl (xr t') = xr t' \<and> fl (xm t') = xm t' \<and>
         xr t \<le> xr t' \<and> xr t' \<le> xm t' \<and> xm t' \<le> xl t' \<and> xl t' \<le> xl t"
proof -
  have m: "xm t' = fl (fl (xl t + xr t) / 2)" by (rule bisect_step_Inr(1)[OF assms(1)])
  have b: "xr t \<le> xm t'" "xm t' \<le> xl t"
    using mid_between [OF assms(2,3,4,5)] by (simp_all add: m)
  have f: "fl (xm t') = xm t'" unfolding m using assms(2) by (rule rounding_idem)
  show ?thesis using bisect_step_Inr(5)[OF assms(1)] assms(3,4) b f by auto
qed

lemma bisect_bracket:
  assumes "bisect fl heap pt order k nb s = Inr s'" "is_rounding fl"
    and "fl (xl s) = xl s" "fl (xr s) = xr s" "xr s \<le> xl s"
    and "fl (xm s) = xm s" "xm s \<le> c" "xl s \<le> c"
  shows "fl (xm s') = xm s' \<and> xm s' \<le> c \<and> fl (xr s') = xr s' \<and> xr s' \<le> xm s' \<or>
         fl (xm s') = xm s' \<and> xm s' \<le> c \<and> xm s' = xm s \<and> nb < k"
proof -
  define I :: "search \<Rightarrow> bool" where
    "I = (\<lambda>t. fl (xl t) = xl t \<and> fl (xr t) = xr t \<and> xr t \<le> xl t \<and> xl t \<le> c \<and>
              fl (xm t) = xm t \<and> xm t \<le> c \<and> (xr t \<le> xm t \<or> t = s))"
  have "I s'"
    using assms(1)
  proof (rule bisect_invariant)
    show "I s" using assms by (simp add: I_def)
  next
    fix t t' assume t: "I t" and st: "bisect_step fl heap pt order t = Inr t'"
    from t have "fl (xl t) = xl t" "fl (xr t) = xr t" "xr t \<le> xl t" "xl t \<le> c"
      by (simp_all add: I_def)
    with bisect_step_bracket [OF st assms(2)] show "I t'" by (simp add: I_def)
  qed
  moreover have "nb < k" if "s' = s" "\<not> xr s \<le> xm s"
  proof (rule ccontr)
    assume "\<not> nb < k"
    then have k: "k \<le> nb" by simp
    from assms(1) k obtain t where t: "bisect_step fl heap pt order s = Inr t"
      and rec: "bisect fl heap pt order (k + 1) nb t = Inr s'"
      by (subst (asm) bisect.simps) (auto split: sum.splits if_splits)
    define J :: "search \<Rightarrow> bool" where
      "J = (\<lambda>u. fl (xl u) = xl u \<and> fl (xr u) = xr u \<and> xr u \<le> xl u \<and> xr s \<le> xr u \<and> xr u \<le> xm u)"
    have "J s'"
      using rec
    proof (rule bisect_invariant)
      show "J t" using bisect_step_bracket [OF t assms(2,3,4,5)] by (simp add: J_def)
    next
      fix u u' assume u: "J u" and st: "bisect_step fl heap pt order u = Inr u'"
      from u have "fl (xl u) = xl u" "fl (xr u) = xr u" "xr u \<le> xl u" "xr s \<le> xr u"
        by (simp_all add: J_def)
      with bisect_step_bracket [OF st assms(2)] show "J u'" by (simp add: J_def)
    qed
    then show False using that by (simp add: J_def)
  qed
  ultimately show ?thesis by (auto simp: I_def)
qed


section \<open>The grid search and the root loop\<close>

lemma repeat_cases:
  assumes "I 0 s"
    and "\<And>k t. k < n \<Longrightarrow> I k t \<Longrightarrow>
           (\<exists>t'. f k t = Inr t' \<and> I (Suc k) t') \<or> (\<exists>e. f k t = Inl e \<and> E e)"
  shows "(\<exists>s'. repeat n f s = Inr s' \<and> I n s') \<or> (\<exists>e. repeat n f s = Inl e \<and> E e)"
  using assms(2)
proof (induction n)
  case 0
  show ?case using assms(1) by simp
next
  case (Suc n)
  have "(\<exists>s'. repeat n f s = Inr s' \<and> I n s') \<or> (\<exists>e. repeat n f s = Inl e \<and> E e)"
    by (rule Suc.IH) (use Suc.prems in auto)
  then show ?case
  proof
    assume "\<exists>s'. repeat n f s = Inr s' \<and> I n s'"
    then obtain t where t: "repeat n f s = Inr t" "I n t" by blast
    from Suc.prems[of n t] t(2) show ?thesis by (auto simp: t(1))
  next
    assume "\<exists>e. repeat n f s = Inl e \<and> E e"
    then show ?thesis by auto
  qed
qed

text \<open>
  The errors of a search: an access outside an array, which needs an input that is not
  well formed (\<open>W\<close> says that it is), and the overflow of the bisection counter, which needs
  \<open>nb = INT_MAX\<close>.
\<close>

lemma bisect_no_fault:
  assumes "2 \<le> order" "order div 2 + 1 \<le> int (length pt)"
  shows "bisect fl heap pt order k nb s \<noteq> Inl OutOfBounds"
  using assms
proof (induction fl heap pt order k nb s rule: bisect.induct)
  case (1 fl heap pt order k nb s)
  obtain s' where s': "bisect_step fl heap pt order s = Inr s'"
    using bisect_step_total [OF "1.prems"] by blast
  show ?case
  proof (cases "k \<le> nb \<and> \<not> INT_MAX \<le> k")
    case True
    then show ?thesis using "1.IH" [OF _ s'] "1.prems" by (subst bisect.simps) (simp add: s')
  next
    case False
    then show ?thesis by (subst bisect.simps) (auto simp: s')
  qed
qed

lemma bisect_result:
  "(\<exists>s'. bisect fl heap pt order k nb s = Inr s') \<or>
   (\<exists>e. bisect fl heap pt order k nb s = Inl e \<and>
      (e = OutOfBounds \<and> \<not> (2 \<le> order \<and> order div 2 + 1 \<le> int (length pt)) \<or>
       e = IntOverflow \<and> INT_MAX \<le> nb))"
proof (cases "bisect fl heap pt order k nb s")
  case (Inl e)
  then show ?thesis
    using bisect_error [OF Inl] bisect_no_fault [of order pt fl heap k nb s] by auto
next
  case (Inr s')
  then show ?thesis by simp
qed

lemma grid_no_flag: "\<not> flag s \<Longrightarrow> grid fl n heap pt order nb delta j s = Inr s"
  by (cases n) (simp_all add: grid.simps)

lemma grid_exit:
  "\<not> (flag s \<and> xr s \<ge> - 1) \<Longrightarrow> grid fl n heap pt order nb delta j s = Inr s"
  by (cases n) (simp_all only: grid.simps if_False)

lemma grid_enter:
  "flag s \<and> xr s \<ge> - 1 \<Longrightarrow> grid fl (Suc n) heap pt order nb delta j s =
     (let s1 = s\<lparr>xr := fl (xl s - delta)\<rparr> in
      (case cheb_poly_eva fl heap pt (xr s1) order of Inl e \<Rightarrow> Inl e
       | Inr psumr \<Rightarrow>
           if fl (psumr * psuml s1) < 0 \<or> psumr = 0 then
             (case bisect fl heap pt order 0 nb (s1\<lparr>roots := roots s1 + 1\<rparr>) of
                Inl e \<Rightarrow> Inl e
              | Inr s2 \<Rightarrow>
                 (case wr (freq s2) j (Some (xm s2)) of Inl e \<Rightarrow> Inl e
                  | Inr f \<Rightarrow>
                     grid fl n heap pt order nb delta j
                       (s2\<lparr>freq := f, xl := xm s2, flag := False\<rparr>)))
           else grid fl n heap pt order nb delta j (s1\<lparr>psuml := psumr, xl := xr s1\<rparr>)))"
  by (simp only: grid.simps simp_thms if_True)

lemma grid_roots:
  "grid fl n heap pt order nb delta j s = Inr s' \<Longrightarrow>
     roots s \<le> roots s' \<and> roots s' \<le> roots s + 1 \<and> length (freq s') = length (freq s)"
proof (induction n arbitrary: s)
  case 0
  then show ?case by (cases "flag s \<and> xr s \<ge> - 1") (simp_all add: grid.simps grid_exit)
next
  case (Suc n)
  show ?case
  proof (cases "flag s \<and> xr s \<ge> - 1")
    case False
    then show ?thesis using Suc.prems by (simp add: grid_exit)
  next
    case True
    define s1 where "s1 = s\<lparr>xr := fl (xl s - delta)\<rparr>"
    obtain psumr where ev: "cheb_poly_eva fl heap pt (xr s1) order = Inr psumr"
      using Suc.prems True by (auto simp: grid_enter s1_def Let_def split: sum.splits)
    show ?thesis
    proof (cases "fl (psumr * psuml s1) < 0 \<or> psumr = 0")
      case found: True
      obtain s2 f where b: "bisect fl heap pt order 0 nb (s1\<lparr>roots := roots s1 + 1\<rparr>) = Inr s2"
        and w: "wr (freq s2) j (Some (xm s2)) = Inr f"
        and g: "grid fl n heap pt order nb delta j (s2\<lparr>freq := f, xl := xm s2, flag := False\<rparr>) = Inr s'"
        using Suc.prems True ev found
        by (auto simp: grid_enter s1_def[symmetric] Let_def split: sum.splits)
      have s': "s' = s2\<lparr>freq := f, xl := xm s2, flag := False\<rparr>"
        using g by (simp add: grid_no_flag)
      show ?thesis
        using bisect_keeps[OF b] wr_length[OF w] by (simp add: s' s1_def)
    next
      case False
      then have "grid fl n heap pt order nb delta j (s1\<lparr>psuml := psumr, xl := xr s1\<rparr>) = Inr s'"
        using Suc.prems True ev
        by (auto simp: grid_enter s1_def[symmetric] Let_def split: sum.splits)
      from Suc.IH[OF this] show ?thesis by (simp add: s1_def)
    qed
  qed
qed

text \<open>
  What one search leaves behind. Either nothing is recorded, or the root is counted and
  recorded in \<open>freq[j]\<close>, it is where the next search starts, and it is not above the start
  of this one.
\<close>

lemma grid_result:
  assumes "grid fl n heap pt order nb delta j s = Inr s'" "is_rounding fl" "0 \<le> delta"
    and "fl (xl s) = xl s" "fl (xm s) = xm s" "xl s \<le> c" "xm s \<le> c"
  shows "(roots s' = roots s \<and> freq s' = freq s) \<or>
         (roots s' = roots s + 1 \<and> 0 \<le> j \<and> nat j < length (freq s) \<and>
          freq s' = (freq s)[nat j := Some (xl s')] \<and>
          xl s' \<le> c \<and> fl (xl s') = xl s' \<and> xm s' = xl s')"
  using assms(1,4,5,6,7)
proof (induction n arbitrary: s)
  case 0
  then show ?case by (cases "flag s \<and> xr s \<ge> - 1") (simp_all add: grid.simps grid_exit)
next
  case (Suc n)
  show ?case
  proof (cases "flag s \<and> xr s \<ge> - 1")
    case False
    then show ?thesis using Suc.prems by (simp add: grid_exit)
  next
    case True
    define s1 where "s1 = s\<lparr>xr := fl (xl s - delta)\<rparr>"
    have x1: "fl (xr s1) = xr s1" "xr s1 \<le> xl s"
      using rounding_idem [OF assms(2)] rounding_below [OF assms(2) Suc.prems(2), of "xl s - delta"]
        assms(3) by (simp_all add: s1_def)
    obtain psumr where ev: "cheb_poly_eva fl heap pt (xr s1) order = Inr psumr"
      using Suc.prems True by (auto simp: grid_enter s1_def Let_def split: sum.splits)
    show ?thesis
    proof (cases "fl (psumr * psuml s1) < 0 \<or> psumr = 0")
      case found: True
      obtain s2 f where b: "bisect fl heap pt order 0 nb (s1\<lparr>roots := roots s1 + 1\<rparr>) = Inr s2"
        and w: "wr (freq s2) j (Some (xm s2)) = Inr f"
        and g: "grid fl n heap pt order nb delta j (s2\<lparr>freq := f, xl := xm s2, flag := False\<rparr>) = Inr s'"
        using Suc.prems(1) True ev found
        by (auto simp: grid_enter s1_def[symmetric] Let_def split: sum.splits)
      have s': "s' = s2\<lparr>freq := f, xl := xm s2, flag := False\<rparr>"
        using g by (simp add: grid_no_flag)
      have k: "roots s2 = roots s + 1" "freq s2 = freq s"
        using bisect_keeps[OF b] by (simp_all add: s1_def)
      have br: "fl (xm s2) = xm s2" "xm s2 \<le> c"
        using bisect_bracket [OF b assms(2), of c] x1 Suc.prems(2,3,4,5) by (auto simp: s1_def)
      have j: "0 \<le> j" "nat j < length (freq s)" and f: "f = (freq s)[nat j := Some (xm s2)]"
        using w k(2) by (auto simp: wr_def split: if_splits)
      show ?thesis using k j f br by (simp add: s')
    next
      case False
      define s3 where "s3 = s1\<lparr>psuml := psumr, xl := xr s1\<rparr>"
      have g: "grid fl n heap pt order nb delta j s3 = Inr s'"
        using Suc.prems(1) True ev False
        by (auto simp: grid_enter s1_def[symmetric] s3_def Let_def split: sum.splits)
      have "fl (xl s3) = xl s3" "fl (xm s3) = xm s3" "xl s3 \<le> c" "xm s3 \<le> c"
        using x1 Suc.prems(2,3,4,5) by (simp_all add: s3_def s1_def)
      from Suc.IH[OF g this] show ?thesis
        by (auto simp: s3_def s1_def)
    qed
  qed
qed

text \<open>
  Enough fuel: when every step takes at least \<open>c\<close> off \<open>xl\<close>, the loop test fails after at
  most \<open>(xl + 1) / c + 1\<close> runs of the body.
\<close>

lemma grid_ok:
  assumes "is_rounding fl" "steps_down fl delta c" "0 \<le> delta"
    and "fl (xl s) = xl s" "fl (xm s) = xm s" "xl s \<le> 1" "xm s \<le> 1"
    and "n = 0 \<longrightarrow> xr s \<le> xl s" "xl s + 1 < real n * c"
  shows "(\<exists>s'. grid fl n heap pt order nb delta j s = Inr s' \<and>
            fl (xl s') = xl s' \<and> fl (xm s') = xm s' \<and> xl s' \<le> 1 \<and> xm s' \<le> 1) \<or>
         (\<exists>e. grid fl n heap pt order nb delta j s = Inl e \<and>
            (e = OutOfBounds \<and>
               \<not> (2 \<le> order \<and> order div 2 + 1 \<le> int (length pt) \<and> 0 \<le> j \<and>
                  j < int (length (freq s))) \<or>
             e = IntOverflow \<and> INT_MAX \<le> nb))"
  using assms(4-)
proof (induction n arbitrary: s)
  case 0
  then have "\<not> (flag s \<and> xr s \<ge> - 1)" by simp
  then show ?case using "0.prems" by (simp add: grid_exit)
next
  case (Suc n)
  show ?case
  proof (cases "flag s \<and> xr s \<ge> - 1")
    case False
    then show ?thesis using Suc.prems by (simp add: grid_exit)
  next
    case True
    define s1 where "s1 = s\<lparr>xr := fl (xl s - delta)\<rparr>"
    have x1: "fl (xr s1) = xr s1" "xr s1 \<le> xl s"
      using rounding_idem [OF assms(1)] rounding_below [OF assms(1) Suc.prems(1), of "xl s - delta"]
        assms(3) by (simp_all add: s1_def)
    have unf: "grid fl (Suc n) heap pt order nb delta j s =
      (case cheb_poly_eva fl heap pt (xr s1) order of Inl e \<Rightarrow> Inl e
       | Inr psumr \<Rightarrow>
           if fl (psumr * psuml s1) < 0 \<or> psumr = 0 then
             (case bisect fl heap pt order 0 nb (s1\<lparr>roots := roots s1 + 1\<rparr>) of
                Inl e \<Rightarrow> Inl e
              | Inr s2 \<Rightarrow>
                 (case wr (freq s2) j (Some (xm s2)) of Inl e \<Rightarrow> Inl e
                  | Inr f \<Rightarrow>
                     grid fl n heap pt order nb delta j
                       (s2\<lparr>freq := f, xl := xm s2, flag := False\<rparr>)))
           else grid fl n heap pt order nb delta j (s1\<lparr>psuml := psumr, xl := xr s1\<rparr>))"
      using True by (simp add: grid_enter s1_def[symmetric] Let_def)
    from cheb_poly_eva_cases[of fl heap pt "xr s1" order] show ?thesis
    proof
      assume "cheb_poly_eva fl heap pt (xr s1) order = Inl OutOfBounds \<and>
              \<not> (2 \<le> order \<and> order div 2 + 1 \<le> int (length pt))"
      then show ?thesis by (auto simp: unf)
    next
      assume "\<exists>y. cheb_poly_eva fl heap pt (xr s1) order = Inr y"
      then obtain psumr where ev: "cheb_poly_eva fl heap pt (xr s1) order = Inr psumr" by blast
      show ?thesis
      proof (cases "fl (psumr * psuml s1) < 0 \<or> psumr = 0")
        case found: True
        from bisect_result[of fl heap pt order 0 nb "s1\<lparr>roots := roots s1 + 1\<rparr>"] show ?thesis
        proof
          assume "\<exists>e. bisect fl heap pt order 0 nb (s1\<lparr>roots := roots s1 + 1\<rparr>) = Inl e \<and>
                  (e = OutOfBounds \<and> \<not> (2 \<le> order \<and> order div 2 + 1 \<le> int (length pt)) \<or>
                   e = IntOverflow \<and> INT_MAX \<le> nb)"
          then show ?thesis using found by (auto simp: unf ev)
        next
          assume "\<exists>s'. bisect fl heap pt order 0 nb (s1\<lparr>roots := roots s1 + 1\<rparr>) = Inr s'"
          then obtain s2 where b: "bisect fl heap pt order 0 nb (s1\<lparr>roots := roots s1 + 1\<rparr>) = Inr s2"
            by blast
          have le: "fl (xm s2) = xm s2" "xm s2 \<le> 1"
            using bisect_bracket [OF b assms(1), of 1] x1 Suc.prems(1,2,3,4) by (auto simp: s1_def)
          have fr: "freq s2 = freq s" using bisect_keeps[OF b] by (simp add: s1_def)
          show ?thesis
          proof (cases "0 \<le> j \<and> j < int (length (freq s))")
            case True
            then have w: "wr (freq s2) j (Some (xm s2)) = Inr ((freq s)[nat j := Some (xm s2)])"
              by (simp add: fr)
            show ?thesis using found le by (simp add: unf ev b w grid_no_flag)
          next
            case False
            then have w: "wr (freq s2) j (Some (xm s2)) = Inl OutOfBounds"
              by (auto simp: wr_def fr)
            show ?thesis using found False by (auto simp: unf ev b w)
          qed
        qed
      next
        case False
        define s3 where "s3 = s1\<lparr>psuml := psumr, xl := xr s1\<rparr>"
        have g: "grid fl (Suc n) heap pt order nb delta j s = grid fl n heap pt order nb delta j s3"
          using False by (simp add: unf ev s3_def)
        have inv: "fl (xl s3) = xl s3" "fl (xm s3) = xm s3" "xl s3 \<le> 1" "xm s3 \<le> 1"
          "xr s3 \<le> xl s3" "xl s3 \<le> xl s"
          using x1 Suc.prems(1,2,3,4) by (simp_all add: s3_def s1_def)
        show ?thesis
        proof (cases "- 1 \<le> xl s")
          case True
          then have "xl s3 \<le> xl s - c"
            using assms(2) Suc.prems(3) by (simp add: steps_down_def s3_def s1_def)
          then have "xl s3 + 1 < real n * c"
            using Suc.prems(6) by (simp add: algebra_simps)
          then show ?thesis
            using Suc.IH[of s3] inv by (simp add: g) (simp add: s3_def s1_def)
        next
          case False
          then have "\<not> (flag s3 \<and> xr s3 \<ge> - 1)" using inv(5,6) by simp
          then have "grid fl n heap pt order nb delta j s3 = Inr s3" by (rule grid_exit)
          then show ?thesis using inv by (simp add: g)
        qed
      qed
    qed
  qed
qed

lemma fuel_enough:
  assumes "0 < c" "x \<le> 1"
  shows "x + 1 < real (Suc (nat \<lfloor>2 / c\<rfloor>)) * c"
proof -
  have "0 \<le> \<lfloor>2 / c\<rfloor>" using assms(1) by simp
  then have a: "real_of_int \<lfloor>2 / c\<rfloor> = real (nat \<lfloor>2 / c\<rfloor>)" by simp
  have b: "2 / c < real_of_int \<lfloor>2 / c\<rfloor> + 1" by linarith
  have "2 / c < real (Suc (nat \<lfloor>2 / c\<rfloor>))" using b unfolding a by simp
  then have "2 < real (Suc (nat \<lfloor>2 / c\<rfloor>)) * c"
    using assms(1) by (simp add: pos_divide_less_eq)
  then show ?thesis using assms(2) by linarith
qed

lemma root_step_ok:
  assumes "is_rounding fl" "steps_down fl delta c" "0 \<le> delta"
    and "fl (xl s) = xl s" "fl (xm s) = xm s" "xl s \<le> 1" "xm s \<le> 1"
  shows "(\<exists>s'. root_step fl (Suc (nat \<lfloor>2 / c\<rfloor>)) heap P Q order nb delta j s = Inr s' \<and>
            fl (xl s') = xl s' \<and> fl (xm s') = xm s' \<and>
            xl s' \<le> 1 \<and> xm s' \<le> 1 \<and> roots s \<le> roots s' \<and> roots s' \<le> roots s + 1 \<and>
            length (freq s') = length (freq s)) \<or>
         (\<exists>e. root_step fl (Suc (nat \<lfloor>2 / c\<rfloor>)) heap P Q order nb delta j s = Inl e \<and>
            (e = OutOfBounds \<and>
               \<not> (2 \<le> order \<and> order div 2 + 1 \<le> int (length P) \<and>
                  order div 2 + 1 \<le> int (length Q) \<and> 0 \<le> j \<and> j < int (length (freq s))) \<or>
             e = IntOverflow \<and> INT_MAX \<le> nb))"
proof -
  define pt where "pt = (if j mod 2 \<noteq> 0 then Q else P)"
  define N where "N = Suc (nat \<lfloor>2 / c\<rfloor>)"
  have c: "0 < c" using assms(2) by (simp add: steps_down_def)
  have unf: "root_step fl N heap P Q order nb delta j s =
    (case cheb_poly_eva fl heap pt (xl s) order of Inl e \<Rightarrow> Inl e
     | Inr pl \<Rightarrow> grid fl N heap pt order nb delta j (s\<lparr>psuml := pl, flag := True\<rparr>))"
    unfolding root_step_def Let_def pt_def by (rule refl)
  have lenpt: "order div 2 + 1 \<le> int (length P) \<and> order div 2 + 1 \<le> int (length Q)
      \<Longrightarrow> order div 2 + 1 \<le> int (length pt)"
    by (simp add: pt_def)
  from cheb_poly_eva_cases[of fl heap pt "xl s" order] show ?thesis
  proof
    assume "cheb_poly_eva fl heap pt (xl s) order = Inl OutOfBounds \<and>
            \<not> (2 \<le> order \<and> order div 2 + 1 \<le> int (length pt))"
    then show ?thesis using lenpt unfolding N_def[symmetric] by (auto simp: unf)
  next
    assume "\<exists>y. cheb_poly_eva fl heap pt (xl s) order = Inr y"
    then obtain pl where ev: "cheb_poly_eva fl heap pt (xl s) order = Inr pl" by blast
    define s0 where "s0 = s\<lparr>psuml := pl, flag := True\<rparr>"
    have g: "root_step fl N heap P Q order nb delta j s = grid fl N heap pt order nb delta j s0"
      by (simp add: unf ev s0_def)
    have fuel: "xl s0 + 1 < real N * c"
      unfolding N_def using fuel_enough[OF c assms(6)] by (simp add: s0_def)
    have "(\<exists>s'. grid fl N heap pt order nb delta j s0 = Inr s' \<and>
            fl (xl s') = xl s' \<and> fl (xm s') = xm s' \<and> xl s' \<le> 1 \<and> xm s' \<le> 1) \<or>
         (\<exists>e. grid fl N heap pt order nb delta j s0 = Inl e \<and>
            (e = OutOfBounds \<and>
               \<not> (2 \<le> order \<and> order div 2 + 1 \<le> int (length pt) \<and> 0 \<le> j \<and>
                  j < int (length (freq s0))) \<or>
             e = IntOverflow \<and> INT_MAX \<le> nb))"
      using assms fuel by (intro grid_ok) (simp_all add: s0_def N_def)
    then show ?thesis
    proof
      assume "\<exists>s'. grid fl N heap pt order nb delta j s0 = Inr s' \<and>
            fl (xl s') = xl s' \<and> fl (xm s') = xm s' \<and> xl s' \<le> 1 \<and> xm s' \<le> 1"
      then obtain s' where s': "grid fl N heap pt order nb delta j s0 = Inr s'"
        "fl (xl s') = xl s'" "fl (xm s') = xm s'" "xl s' \<le> 1" "xm s' \<le> 1"
        by blast
      from grid_roots[OF s'(1)] s' show ?thesis
        unfolding N_def[symmetric] by (simp add: g) (simp add: s0_def)
    next
      assume "\<exists>e. grid fl N heap pt order nb delta j s0 = Inl e \<and>
            (e = OutOfBounds \<and>
               \<not> (2 \<le> order \<and> order div 2 + 1 \<le> int (length pt) \<and> 0 \<le> j \<and>
                  j < int (length (freq s0))) \<or>
             e = IntOverflow \<and> INT_MAX \<le> nb)"
      then show ?thesis using lenpt unfolding N_def[symmetric] by (auto simp: g s0_def)
    qed
  qed
qed

lemma root_step_result:
  assumes "root_step fl n heap P Q order nb delta j s = Inr s'" "is_rounding fl" "0 \<le> delta"
    and "fl (xl s) = xl s" "fl (xm s) = xm s" "xl s \<le> c" "xm s \<le> c"
  shows "(roots s' = roots s \<and> freq s' = freq s) \<or>
         (roots s' = roots s + 1 \<and> 0 \<le> j \<and> nat j < length (freq s) \<and>
          freq s' = (freq s)[nat j := Some (xl s')] \<and>
          xl s' \<le> c \<and> fl (xl s') = xl s' \<and> xm s' = xl s')"
proof -
  define pt where "pt = (if j mod 2 \<noteq> 0 then Q else P)"
  obtain pl where g: "grid fl n heap pt order nb delta j (s\<lparr>psuml := pl, flag := True\<rparr>) = Inr s'"
    using assms(1) by (auto simp: root_step_def pt_def Let_def split: sum.splits)
  from grid_result[OF g assms(2,3), of c] assms(4-) show ?thesis by simp
qed

lemma root_step_roots:
  assumes "root_step fl n heap P Q order nb delta j s = Inr s'"
  shows "roots s \<le> roots s' \<and> roots s' \<le> roots s + 1 \<and> length (freq s') = length (freq s)"
proof -
  define pt where "pt = (if j mod 2 \<noteq> 0 then Q else P)"
  obtain pl where g: "grid fl n heap pt order nb delta j (s\<lparr>psuml := pl, flag := True\<rparr>) = Inr s'"
    using assms(1) by (auto simp: root_step_def pt_def Let_def split: sum.splits)
  from grid_roots[OF g] show ?thesis by simp
qed

lemma root_loop_repeat:
  "0 \<le> j \<Longrightarrow> root_loop fl n heap P Q order nb delta j s =
     repeat (nat (order - j)) (\<lambda>i. root_step fl n heap P Q order nb delta (j + int i)) s"
proof (induction fl n heap P Q order nb delta j s rule: root_loop.induct)
  case (1 fl n heap P Q order nb delta j s)
  show ?case
  proof (cases "j < order")
    case False
    then show ?thesis by (subst root_loop.simps) simp
  next
    case True
    then have k: "nat (order - j) = Suc (nat (order - (j + 1)))" by linarith
    have shift: "(\<lambda>i. root_step fl n heap P Q order nb delta (j + int (Suc i))) =
                 (\<lambda>i. root_step fl n heap P Q order nb delta (j + 1 + int i))"
    proof (rule ext)
      fix i :: nat
      have "j + int (Suc i) = j + 1 + int i" by simp
      then show "root_step fl n heap P Q order nb delta (j + int (Suc i)) =
                 root_step fl n heap P Q order nb delta (j + 1 + int i)" by (rule arg_cong)
    qed
    show ?thesis
      unfolding k repeat_Suc_front shift
      using True "1.IH" "1.prems" by (subst root_loop.simps) (simp split: sum.splits)
  qed
qed


lemma x_domain_cases:
  assumes "is_rounding fl" "steps_down fl delta c" "0 \<le> delta"
    and "int (length P0) = order + 1" "int (length Q0) = order + 1"
  shows "(\<exists>s. x_domain fl (Suc (nat \<lfloor>2 / c\<rfloor>)) heap P0 Q0 a order freq0 nb delta = Inr s \<and>
            0 \<le> roots s \<and> roots s \<le> order \<and> length (freq s) = length freq0) \<or>
         (\<exists>e. x_domain fl (Suc (nat \<lfloor>2 / c\<rfloor>)) heap P0 Q0 a order freq0 nb delta = Inl e \<and>
            (e = OutOfBounds \<and>
               \<not> (2 \<le> order \<and> order + 1 \<le> int (length a) \<and> order \<le> int (length freq0)) \<or>
             e = IntOverflow \<and> INT_MAX \<le> nb))"
proof -
  define N where "N = Suc (nat \<lfloor>2 / c\<rfloor>)"
  define W where "W \<longleftrightarrow> 2 \<le> order \<and> order + 1 \<le> int (length a) \<and> order \<le> int (length freq0)"
  define E where "E = (\<lambda>e. e = OutOfBounds \<and> \<not> W \<or> e = IntOverflow \<and> INT_MAX \<le> nb)"
  define s0 :: search where
    "s0 = \<lparr>xl = 1, xr = 0, xm = 0, psuml = 0, roots = 0, flag = True, freq = freq0\<rparr>"
  from lpc_pq_cases[of fl a order P0 Q0]
  have "(\<exists>s. x_domain fl N heap P0 Q0 a order freq0 nb delta = Inr s \<and>
            0 \<le> roots s \<and> roots s \<le> order \<and> length (freq s) = length freq0) \<or>
         (\<exists>e. x_domain fl N heap P0 Q0 a order freq0 nb delta = Inl e \<and> E e)"
  proof
    assume "lpc_pq fl a order P0 Q0 = Inl OutOfBounds \<and>
      \<not> (0 \<le> order \<and> order + 1 \<le> int (length a) \<and>
         order + 1 \<le> int (length P0) \<and> order + 1 \<le> int (length Q0))"
    then show ?thesis using assms(4,5) by (auto simp: x_domain_def W_def E_def)
  next
    assume "\<exists>P Q. lpc_pq fl a order P0 Q0 = Inr (P, Q) \<and> length P = length P0 \<and> length Q = length Q0"
    then obtain P Q where pq: "lpc_pq fl a order P0 Q0 = Inr (P, Q)"
      and len: "length P = length P0" "length Q = length Q0" by blast
    have o: "- 1 \<le> order" using assms(4) by linarith
    define f where "f = (\<lambda>i. root_step fl N heap P Q order nb delta (0 + int i))"
    define I :: "nat \<Rightarrow> search \<Rightarrow> bool" where
      "I = (\<lambda>k t. fl (xl t) = xl t \<and> fl (xm t) = xm t \<and> xl t \<le> 1 \<and> xm t \<le> 1 \<and>
                  0 \<le> roots t \<and> roots t \<le> int k \<and> length (freq t) = length freq0)"
    have xd: "x_domain fl N heap P0 Q0 a order freq0 nb delta = repeat (nat order) f s0"
      by (simp add: x_domain_def pq s0_def[symmetric] root_loop_repeat f_def)
    have "(\<exists>s'. repeat (nat order) f s0 = Inr s' \<and> I (nat order) s') \<or>
          (\<exists>e. repeat (nat order) f s0 = Inl e \<and> E e)"
    proof (rule repeat_cases)
      show "I 0 s0" using rounding_consts [OF assms(1)] by (simp add: I_def s0_def)
    next
      fix k t assume k: "k < nat order" and It: "I k t"
      from It have t: "fl (xl t) = xl t" "fl (xm t) = xm t" "xl t \<le> 1" "xm t \<le> 1"
        "0 \<le> roots t" "roots t \<le> int k" "length (freq t) = length freq0"
        by (simp_all add: I_def)
      from root_step_ok[OF assms(1,2,3) t(1,2,3,4), of heap P Q order nb "0 + int k"]
      show "(\<exists>t'. f k t = Inr t' \<and> I (Suc k) t') \<or> (\<exists>e. f k t = Inl e \<and> E e)"
      proof
        assume "\<exists>s'. root_step fl (Suc (nat \<lfloor>2 / c\<rfloor>)) heap P Q order nb delta (0 + int k) t = Inr s' \<and>
            fl (xl s') = xl s' \<and> fl (xm s') = xm s' \<and>
            xl s' \<le> 1 \<and> xm s' \<le> 1 \<and> roots t \<le> roots s' \<and> roots s' \<le> roots t + 1 \<and>
            length (freq s') = length (freq t)"
        then show ?thesis using t by (auto simp: f_def N_def I_def)
      next
        assume "\<exists>e. root_step fl (Suc (nat \<lfloor>2 / c\<rfloor>)) heap P Q order nb delta (0 + int k) t = Inl e \<and>
            (e = OutOfBounds \<and>
               \<not> (2 \<le> order \<and> order div 2 + 1 \<le> int (length P) \<and>
                  order div 2 + 1 \<le> int (length Q) \<and> 0 \<le> 0 + int k \<and>
                  0 + int k < int (length (freq t))) \<or>
             e = IntOverflow \<and> INT_MAX \<le> nb)"
        then obtain e where e: "root_step fl (Suc (nat \<lfloor>2 / c\<rfloor>)) heap P Q order nb delta (0 + int k) t = Inl e"
          and ee: "e = OutOfBounds \<and>
               \<not> (2 \<le> order \<and> order div 2 + 1 \<le> int (length P) \<and>
                  order div 2 + 1 \<le> int (length Q) \<and> 0 \<le> 0 + int k \<and>
                  0 + int k < int (length (freq t))) \<or>
             e = IntOverflow \<and> INT_MAX \<le> nb" by blast
        have "\<not> W" if "e = OutOfBounds"
        proof
          assume W
          then have w: "2 \<le> order" "order \<le> int (length freq0)" by (simp_all add: W_def)
          have "order div 2 + 1 \<le> int (length P)" "order div 2 + 1 \<le> int (length Q)"
            using w(1) len assms(4,5) by simp_all
          moreover have "0 + int k < int (length (freq t))" using k w(2) t(7) by linarith
          ultimately show False using ee that w(1) by simp
        qed
        then have "E e" using ee by (auto simp: E_def)
        then show ?thesis using e by (auto simp: f_def N_def)
      qed
    qed
    then show ?thesis
    proof
      assume "\<exists>s'. repeat (nat order) f s0 = Inr s' \<and> I (nat order) s'"
      then obtain s' where s': "repeat (nat order) f s0 = Inr s'" "I (nat order) s'" by blast
      have "roots s' \<le> order"
      proof (cases "0 \<le> order")
        case True
        then show ?thesis using s'(2) by (simp add: I_def)
      next
        case False
        then have "nat order = 0" by simp
        then have "s' = s0" using s'(1) by simp
        moreover have "order = - 1" using False o by linarith
        ultimately have False using pq assms(4) by (auto simp: lpc_pq_def wr_def)
        then show ?thesis ..
      qed
      then show ?thesis using s' by (auto simp: xd I_def)
    next
      assume "\<exists>e. repeat (nat order) f s0 = Inl e \<and> E e"
      then show ?thesis by (simp add: xd)
    qed
  qed
  then show ?thesis by (simp add: N_def W_def E_def)
qed

text \<open>
  When every index records a root, the recorded roots do not increase and none is above
  \<open>1\<close>.
\<close>

lemma x_domain_sorted:
  assumes "x_domain fl n heap P0 Q0 a order freq0 nb delta = Inr s" "roots s = order"
    and "is_rounding fl" "0 \<le> delta"
  shows "nat order \<le> length (freq s) \<and>
         (\<forall>i<nat order. \<exists>v. freq s ! i = Some v \<and> v \<le> 1) \<and>
         (\<forall>i. Suc i < nat order \<longrightarrow>
            (\<exists>v w. freq s ! i = Some v \<and> freq s ! Suc i = Some w \<and> w \<le> v))"
proof (cases "0 \<le> order")
  case False
  then show ?thesis by simp
next
  case True
  define s0 :: search where
    "s0 = \<lparr>xl = 1, xr = 0, xm = 0, psuml = 0, roots = 0, flag = True, freq = freq0\<rparr>"
  obtain P Q where pq: "lpc_pq fl a order P0 Q0 = Inr (P, Q)"
    and rl: "root_loop fl n heap P Q order nb delta 0 s0 = Inr s"
    using assms(1) by (auto simp: x_domain_def s0_def split: sum.splits prod.splits)
  define f where "f = (\<lambda>i. root_step fl n heap P Q order nb delta (0 + int i))"
  define G :: "nat \<Rightarrow> search \<Rightarrow> bool" where
    "G = (\<lambda>k t. fl (xl t) = xl t \<and> fl (xm t) = xm t \<and> xm t \<le> xl t \<and> xl t \<le> 1 \<and>
            k \<le> length (freq t) \<and>
            (\<forall>i<k. \<exists>v. freq t ! i = Some v \<and> xl t \<le> v \<and> v \<le> 1) \<and>
            (\<forall>i. Suc i < k \<longrightarrow> (\<exists>v w. freq t ! i = Some v \<and> freq t ! Suc i = Some w \<and> w \<le> v)))"
  define I :: "nat \<Rightarrow> search \<Rightarrow> bool" where
    "I = (\<lambda>k t. roots t \<le> int k \<and> (roots t = int k \<longrightarrow> G k t))"
  have rp: "repeat (nat order) f s0 = Inr s"
    using rl by (simp add: root_loop_repeat f_def)
  have "I (nat order) s"
    using rp
  proof (rule repeat_invariant)
    show "I 0 s0" using rounding_consts [OF assms(3)] by (simp add: I_def G_def s0_def)
  next
    fix k t t' assume k: "k < nat order" and It: "I k t" and st: "f k t = Inr t'"
    have st': "root_step fl n heap P Q order nb delta (int k) t = Inr t'"
      using st by (simp add: f_def)
    from root_step_roots[OF st'] have rr: "roots t \<le> roots t'" "roots t' \<le> roots t + 1" by simp_all
    have le: "roots t' \<le> int (Suc k)" using rr It by (simp add: I_def)
    have "G (Suc k) t'" if full: "roots t' = int (Suc k)"
    proof -
      have rt: "roots t = int k" using full rr It by (simp add: I_def)
      then have Gt: "G k t" using It by (simp add: I_def)
      then have g: "fl (xl t) = xl t" "fl (xm t) = xm t" "xm t \<le> xl t" "xl t \<le> 1"
        "k \<le> length (freq t)"
        "\<forall>i<k. \<exists>v. freq t ! i = Some v \<and> xl t \<le> v \<and> v \<le> 1"
        "\<forall>i. Suc i < k \<longrightarrow> (\<exists>v w. freq t ! i = Some v \<and> freq t ! Suc i = Some w \<and> w \<le> v)"
        by (simp_all add: G_def)
      from root_step_result[OF st' assms(3,4) g(1,2) order_refl g(3)] full rt
      have r: "k < length (freq t)" "freq t' = (freq t)[k := Some (xl t')]"
        "xl t' \<le> xl t" "fl (xl t') = xl t'" "xm t' = xl t'"
        by auto
      have old: "freq t' ! i = freq t ! i" if "i < k" for i
        using that r(1) by (simp add: r(2))
      have new: "freq t' ! k = Some (xl t')" using r(1) by (simp add: r(2))
      have a: "\<exists>v. freq t' ! i = Some v \<and> xl t' \<le> v \<and> v \<le> 1" if "i < Suc k" for i
      proof (cases "i = k")
        case True
        then show ?thesis using new r(3) g(4) by simp
      next
        case False
        then have "i < k" using that by simp
        then show ?thesis using g(6) old r(3) by fastforce
      qed
      have b: "\<exists>v w. freq t' ! i = Some v \<and> freq t' ! Suc i = Some w \<and> w \<le> v" if "Suc i < Suc k" for i
      proof (cases "Suc i = k")
        case True
        then have "i < k" by simp
        then obtain v where v: "freq t ! i = Some v" "xl t \<le> v" using g(6) by blast
        then show ?thesis using old[OF \<open>i < k\<close>] new True r(3) by auto
      next
        case False
        then have "Suc i < k" using that by simp
        then show ?thesis using g(7) old[of i] old[of "Suc i"] by auto
      qed
      show ?thesis
        unfolding G_def using r g(4) a b by (auto simp: r(2))
    qed
    then show "I (Suc k) t'" using le by (simp add: I_def)
  qed
  then have "G (nat order) s" using assms(2) True by (simp add: I_def)
  then show ?thesis unfolding G_def by blast
qed

section \<open>The conversion to radians and the whole of lpc_to_lsp\<close>

lemma to_radians_error: "to_radians fl i order f = Inl e \<Longrightarrow> e = OutOfBounds"
proof (induction fl i order f rule: to_radians.induct)
  case (1 fl i order f)
  from "1.prems" show ?case
    by (subst (asm) to_radians.simps)
       (auto split: if_splits sum.splits dest: rd_error wr_error "1.IH")
qed

lemma to_radians_result:
  assumes "to_radians fl i order f = Inr f'" "0 \<le> i"
  shows "length f' = length f \<and>
         (\<forall>k. k < length f \<longrightarrow> f' ! k = (if nat i \<le> k \<and> int k < order then acosf fl (f ! k) else f ! k))"
  using assms
proof (induction fl i order f rule: to_radians.induct)
  case (1 fl i order f)
  show ?case
  proof (cases "i < order")
    case False
    then have "f' = f" using "1.prems"(1) by (subst (asm) to_radians.simps) simp
    then show ?thesis using False "1.prems"(2) by auto
  next
    case True
    from "1.prems"(1) True obtain v f1 where
      r: "rd f i = Inr v" "wr f i (acosf fl v) = Inr f1"
      and rec: "to_radians fl (i + 1) order f1 = Inr f'"
      by (subst (asm) to_radians.simps) (auto split: sum.splits)
    have il: "nat i < length f" and v: "v = f ! nat i" and f1: "f1 = f[nat i := acosf fl (f ! nat i)]"
      using r "1.prems"(2) by (auto simp: rd_def wr_def split: if_splits)
    have IH: "length f' = length f1"
      "\<forall>k. k < length f1 \<longrightarrow> f' ! k = (if nat (i + 1) \<le> k \<and> int k < order then acosf fl (f1 ! k) else f1 ! k)"
      using "1.IH"[OF True r rec] "1.prems"(2) by simp_all
    have suc: "nat (i + 1) = Suc (nat i)" using "1.prems"(2) by linarith
    have "f' ! k = (if nat i \<le> k \<and> int k < order then acosf fl (f ! k) else f ! k)"
      if k: "k < length f" for k
    proof (cases "k = nat i")
      case True
      then show ?thesis using IH(2) k \<open>i < order\<close> "1.prems"(2) by (simp add: f1 suc)
    next
      case False
      then have "nat (i + 1) \<le> k \<longleftrightarrow> nat i \<le> k" unfolding suc by linarith
      then show ?thesis using IH(2) k False by (simp add: f1)
    qed
    then show ?thesis using IH(1) by (simp add: f1)
  qed
qed

lemma to_radians_total:
  assumes "0 \<le> i" "order \<le> int (length f)"
  shows "\<exists>f'. to_radians fl i order f = Inr f'"
  using assms
proof (induction fl i order f rule: to_radians.induct)
  case (1 fl i order f)
  show ?case
  proof (cases "i < order")
    case False
    then show ?thesis by (subst to_radians.simps) simp
  next
    case True
    have r: "rd f i = Inr (f ! nat i)" and w: "wr f i (acosf fl (f ! nat i)) = Inr (f[nat i := acosf fl (f ! nat i)])"
      using True "1.prems" by simp_all
    have "\<exists>f'. to_radians fl (i + 1) order (f[nat i := acosf fl (f ! nat i)]) = Inr f'"
      using "1.IH"[OF True r w] "1.prems" by simp
    then show ?thesis using True by (subst to_radians.simps) (simp add: r w)
  qed
qed

lemma to_radians_cases:
  "(\<exists>f'. to_radians fl 0 order f = Inr f' \<and> length f' = length f) \<or>
   (to_radians fl 0 order f = Inl OutOfBounds \<and> \<not> order \<le> int (length f))"
proof (cases "to_radians fl 0 order f")
  case (Inl e)
  then have "e = OutOfBounds" by (rule to_radians_error)
  moreover have "\<not> order \<le> int (length f)"
    using Inl to_radians_total[of 0 order f fl] by auto
  ultimately show ?thesis using Inl by simp
next
  case (Inr f')
  then show ?thesis using to_radians_result[OF Inr] by simp
qed

lemma lpc_to_lsp_cases:
  assumes "is_rounding fl" "steps_down fl delta c" "0 \<le> delta"
  shows "(\<exists>r f. lpc_to_lsp fl (Suc (nat \<lfloor>2 / c\<rfloor>)) heap a order freq0 nb delta = Inr (r, f) \<and>
            length f = length freq0 \<and>
            (if malloc heap (order + 1) = None then r = - 1 \<and> f = freq0
             else 0 \<le> r \<and> r \<le> order)) \<or>
         (\<exists>e. lpc_to_lsp fl (Suc (nat \<lfloor>2 / c\<rfloor>)) heap a order freq0 nb delta = Inl e \<and>
            (e = OutOfBounds \<and>
               \<not> (2 \<le> order \<and> order + 1 \<le> int (length a) \<and> order \<le> int (length freq0)) \<or>
             e = IntOverflow \<and> (INT_MAX \<le> nb \<or> INT_MAX \<le> order)))"
proof (cases "INT_MAX \<le> order")
  case True
  then show ?thesis by (simp add: lpc_to_lsp_def)
next
  case no: False
  show ?thesis
  proof (cases "malloc heap (order + 1)")
    case None
    then show ?thesis using no by (simp add: lpc_to_lsp_def)
  next
    case (Some B)
    note m = Some
    have lenB: "int (length B) = order + 1" using m by (rule malloc_length)
    from x_domain_cases[OF assms lenB lenB, of heap a freq0 nb] show ?thesis
    proof
      assume "\<exists>e. x_domain fl (Suc (nat \<lfloor>2 / c\<rfloor>)) heap B B a order freq0 nb delta = Inl e \<and>
            (e = OutOfBounds \<and>
               \<not> (2 \<le> order \<and> order + 1 \<le> int (length a) \<and> order \<le> int (length freq0)) \<or>
             e = IntOverflow \<and> INT_MAX \<le> nb)"
      then show ?thesis using no by (auto simp: lpc_to_lsp_def m)
    next
      assume "\<exists>s. x_domain fl (Suc (nat \<lfloor>2 / c\<rfloor>)) heap B B a order freq0 nb delta = Inr s \<and>
            0 \<le> roots s \<and> roots s \<le> order \<and> length (freq s) = length freq0"
      then obtain s where s: "x_domain fl (Suc (nat \<lfloor>2 / c\<rfloor>)) heap B B a order freq0 nb delta = Inr s"
        "0 \<le> roots s" "roots s \<le> order" "length (freq s) = length freq0" by blast
      from to_radians_cases[of fl order "freq s"] show ?thesis
      proof
        assume "\<exists>f'. to_radians fl 0 order (freq s) = Inr f' \<and> length f' = length (freq s)"
        then show ?thesis using s no by (auto simp: lpc_to_lsp_def m)
      next
        assume "to_radians fl 0 order (freq s) = Inl OutOfBounds \<and> \<not> order \<le> int (length (freq s))"
        then show ?thesis using s no by (simp add: lpc_to_lsp_def m)
      qed
    qed
  qed
qed

lemma lpc_to_lsp_parts:
  assumes "lpc_to_lsp fl n heap a order freq0 nb delta = Inr (r, f)"
    and "malloc heap (order + 1) = Some B"
  shows "\<exists>s. x_domain fl n heap B B a order freq0 nb delta = Inr s \<and> r = roots s \<and>
           length f = length (freq s) \<and>
           (\<forall>i. i < length f \<longrightarrow> f ! i = (if int i < order then acosf fl (freq s ! i) else freq s ! i))"
proof -
  obtain s where s: "x_domain fl n heap B B a order freq0 nb delta = Inr s"
    and t: "to_radians fl 0 order (freq s) = Inr f" and r: "r = roots s"
    using assms by (auto simp: lpc_to_lsp_def split: sum.splits if_splits)
  from to_radians_result[OF t] have "length f = length (freq s)"
    "\<forall>k. k < length (freq s) \<longrightarrow> f ! k = (if nat 0 \<le> k \<and> int k < order then acosf fl (freq s ! k) else freq s ! k)"
    by simp_all
  then show ?thesis using s r by auto
qed

lemma acosf_range:
  "is_rounding fl \<Longrightarrow> - 1 \<le> x \<Longrightarrow> x \<le> 1 \<Longrightarrow>
     \<exists>t. acosf fl (Some x) = Some t \<and> 0 \<le> t \<and> t \<le> fl pi"
  using rounding_mono [of fl 0 "arccos x"] rounding_mono [of fl "arccos x" pi]
    arccos_lbound [of x] arccos_ubound [of x] rounding_consts [of fl]
  by (simp add: acosf_def)

lemma acosf_adjacent:
  "is_rounding fl \<Longrightarrow> - 1 \<le> w \<Longrightarrow> w \<le> v \<Longrightarrow> v \<le> 1 \<Longrightarrow>
     \<exists>t u. acosf fl (Some v) = Some t \<and> acosf fl (Some w) = Some u \<and> t \<le> u"
  using arccos_le_arccos [of w v] rounding_mono [of fl "arccos v" "arccos w"]
  by (simp add: acosf_def)

lemmas run_simps = lpc_to_lsp_def INT_MAX_def malloc_def heap_ok_def x_domain_def lpc_pq_def
  pq_fill.simps pq_double.simps rd_def wr_def signed_divide_int_def root_loop.simps root_step_def
  grid.simps bisect.simps bisect_step_def cheb_order23 eval_nat_numeral to_radians.simps acosf_def
  fl32_eval


lemma grid_error:
  assumes "grid fl n heap pt order nb delta j s = Inl e"
  shows "e = OutOfFuel \<or>
         e = OutOfBounds \<and>
           \<not> (2 \<le> order \<and> order div 2 + 1 \<le> int (length pt) \<and> 0 \<le> j \<and> j < int (length (freq s))) \<or>
         e = IntOverflow \<and> INT_MAX \<le> nb"
  using assms
proof (induction n arbitrary: s)
  case 0
  then show ?case by (simp add: grid.simps split: if_splits)
next
  case (Suc n)
  show ?case
  proof (cases "flag s \<and> xr s \<ge> - 1")
    case False
    then show ?thesis using Suc.prems by (simp add: grid_exit)
  next
    case True
    define s1 where "s1 = s\<lparr>xr := fl (xl s - delta)\<rparr>"
    have unf: "grid fl (Suc n) heap pt order nb delta j s =
      (case cheb_poly_eva fl heap pt (xr s1) order of Inl e \<Rightarrow> Inl e
       | Inr psumr \<Rightarrow>
           if fl (psumr * psuml s1) < 0 \<or> psumr = 0 then
             (case bisect fl heap pt order 0 nb (s1\<lparr>roots := roots s1 + 1\<rparr>) of
                Inl e \<Rightarrow> Inl e
              | Inr s2 \<Rightarrow>
                 (case wr (freq s2) j (Some (xm s2)) of Inl e \<Rightarrow> Inl e
                  | Inr f \<Rightarrow>
                     grid fl n heap pt order nb delta j
                       (s2\<lparr>freq := f, xl := xm s2, flag := False\<rparr>)))
           else grid fl n heap pt order nb delta j (s1\<lparr>psuml := psumr, xl := xr s1\<rparr>))"
      using True by (simp add: grid_enter s1_def[symmetric] Let_def)
    from cheb_poly_eva_cases[of fl heap pt "xr s1" order] show ?thesis
    proof
      assume "cheb_poly_eva fl heap pt (xr s1) order = Inl OutOfBounds \<and>
              \<not> (2 \<le> order \<and> order div 2 + 1 \<le> int (length pt))"
      then show ?thesis using Suc.prems by (auto simp: unf)
    next
      assume "\<exists>y. cheb_poly_eva fl heap pt (xr s1) order = Inr y"
      then obtain psumr where ev: "cheb_poly_eva fl heap pt (xr s1) order = Inr psumr" by blast
      show ?thesis
      proof (cases "fl (psumr * psuml s1) < 0 \<or> psumr = 0")
        case found: True
        from bisect_result[of fl heap pt order 0 nb "s1\<lparr>roots := roots s1 + 1\<rparr>"] show ?thesis
        proof
          assume "\<exists>e. bisect fl heap pt order 0 nb (s1\<lparr>roots := roots s1 + 1\<rparr>) = Inl e \<and>
                  (e = OutOfBounds \<and> \<not> (2 \<le> order \<and> order div 2 + 1 \<le> int (length pt)) \<or>
                   e = IntOverflow \<and> INT_MAX \<le> nb)"
          then show ?thesis using found Suc.prems by (auto simp: unf ev)
        next
          assume "\<exists>s'. bisect fl heap pt order 0 nb (s1\<lparr>roots := roots s1 + 1\<rparr>) = Inr s'"
          then obtain s2 where b: "bisect fl heap pt order 0 nb (s1\<lparr>roots := roots s1 + 1\<rparr>) = Inr s2"
            by blast
          have fr: "freq s2 = freq s" using bisect_keeps[OF b] by (simp add: s1_def)
          show ?thesis
          proof (cases "0 \<le> j \<and> j < int (length (freq s))")
            case True
            then have w: "wr (freq s2) j (Some (xm s2)) = Inr ((freq s)[nat j := Some (xm s2)])"
              by (simp add: fr)
            show ?thesis using found Suc.prems by (simp add: unf ev b w grid_no_flag)
          next
            case False
            then have w: "wr (freq s2) j (Some (xm s2)) = Inl OutOfBounds"
              by (auto simp: wr_def fr)
            show ?thesis using found False Suc.prems by (auto simp: unf ev b w)
          qed
        qed
      next
        case False
        define s3 where "s3 = s1\<lparr>psuml := psumr, xl := xr s1\<rparr>"
        have g: "grid fl (Suc n) heap pt order nb delta j s = grid fl n heap pt order nb delta j s3"
          using False by (simp add: unf ev s3_def)
        from Suc.IH [of s3] Suc.prems show ?thesis by (simp add: g) (simp add: s3_def s1_def)
      qed
    qed
  qed
qed

lemma root_step_error:
  assumes "root_step fl n heap P Q order nb delta j s = Inl e"
  shows "e = OutOfFuel \<or>
         e = OutOfBounds \<and>
           \<not> (2 \<le> order \<and> order div 2 + 1 \<le> int (length P) \<and>
              order div 2 + 1 \<le> int (length Q) \<and> 0 \<le> j \<and> j < int (length (freq s))) \<or>
         e = IntOverflow \<and> INT_MAX \<le> nb"
proof -
  define pt where "pt = (if j mod 2 \<noteq> 0 then Q else P)"
  have unf: "root_step fl n heap P Q order nb delta j s =
    (case cheb_poly_eva fl heap pt (xl s) order of Inl e \<Rightarrow> Inl e
     | Inr pl \<Rightarrow> grid fl n heap pt order nb delta j (s\<lparr>psuml := pl, flag := True\<rparr>))"
    unfolding root_step_def Let_def pt_def by (rule refl)
  have lenpt: "order div 2 + 1 \<le> int (length P) \<and> order div 2 + 1 \<le> int (length Q)
      \<Longrightarrow> order div 2 + 1 \<le> int (length pt)"
    by (simp add: pt_def)
  from cheb_poly_eva_cases[of fl heap pt "xl s" order] show ?thesis
  proof
    assume "cheb_poly_eva fl heap pt (xl s) order = Inl OutOfBounds \<and>
            \<not> (2 \<le> order \<and> order div 2 + 1 \<le> int (length pt))"
    then show ?thesis using lenpt assms by (auto simp: unf)
  next
    assume "\<exists>y. cheb_poly_eva fl heap pt (xl s) order = Inr y"
    then obtain pl where ev: "cheb_poly_eva fl heap pt (xl s) order = Inr pl" by blast
    have "grid fl n heap pt order nb delta j (s\<lparr>psuml := pl, flag := True\<rparr>) = Inl e"
      using assms by (simp add: unf ev)
    from grid_error [OF this] lenpt show ?thesis by auto
  qed
qed

lemma to_radians_map:
  assumes "int (length f) = order"
  shows "to_radians fl 0 order f = Inr (map (acosf fl) f)"
proof -
  obtain f' where f': "to_radians fl 0 order f = Inr f'"
    using to_radians_total [of 0 order f fl] assms by auto
  from to_radians_result [OF f'] assms have "length f' = length f"
    "\<forall>k. k < length f \<longrightarrow> f' ! k = acosf fl (f ! k)" by auto
  then have "f' = map (acosf fl) f" by (intro nth_equalityI) simp_all
  then show ?thesis using f' by simp
qed


text \<open>
  The whole call on a well-formed input, for any fuel: the polynomials, then the search
  over the indices \<open>0, \<dots>, order - 1\<close>, then \<^verbatim>\<open>acosf\<close> on every cell.
\<close>

lemma lpc_to_lsp_search:
  assumes "2 \<le> order" "order < INT_MAX" "int (length a) = order + 1"
    and "int (length freq0) = order" "malloc heap (order + 1) = Some B"
  shows "\<exists>P Q. lpc_pq fl a order B B = Inr (P, Q) \<and>
           (\<forall>i. i \<le> nat (order div 2) \<longrightarrow>
              P ! i = doubled fl (nat (order div 2)) (P_spec fl a (nat order)) i \<and>
              Q ! i = doubled fl (nat (order div 2)) (Q_spec fl a (nat order)) i) \<and>
           lpc_to_lsp fl n heap a order freq0 nb delta =
             (case repeat (nat order) (\<lambda>j. root_step fl n heap P Q order nb delta (int j))
                     \<lparr>xl = 1, xr = 0, xm = 0, psuml = 0, roots = 0, flag = True, freq = freq0\<rparr> of
                Inl e \<Rightarrow> Inl e
              | Inr s \<Rightarrow> Inr (roots s, map (acosf fl) (freq s))) \<and>
           (\<forall>e. lpc_to_lsp fl n heap a order freq0 nb delta = Inl e \<longrightarrow>
              e = OutOfFuel \<or> e = IntOverflow \<and> INT_MAX \<le> nb) \<and>
           (\<forall>r f. lpc_to_lsp fl n heap a order freq0 nb delta = Inr (r, f) \<longrightarrow>
              0 \<le> r \<and> r \<le> order \<and> length f = nat order)"
proof -
  define s0 :: search where
    "s0 = \<lparr>xl = 1, xr = 0, xm = 0, psuml = 0, roots = 0, flag = True, freq = freq0\<rparr>"
  have lenB: "int (length B) = order + 1" using assms(5) by (rule malloc_length)
  obtain P Q where pq: "lpc_pq fl a order B B = Inr (P, Q)"
    and sp: "\<forall>i. i \<le> nat (order div 2) \<longrightarrow>
              P ! i = doubled fl (nat (order div 2)) (P_spec fl a (nat order)) i \<and>
              Q ! i = doubled fl (nat (order div 2)) (Q_spec fl a (nat order)) i"
    using lpc_pq_result [of order a B B fl] assms(1,3) lenB by auto
  have len: "length P = length B" "length Q = length B"
    using lpc_pq_length [OF pq] by simp_all
  define f where "f = (\<lambda>j. root_step fl n heap P Q order nb delta (int j))"
  define I :: "nat \<Rightarrow> search \<Rightarrow> bool" where
    "I = (\<lambda>k t. 0 \<le> roots t \<and> roots t \<le> int k \<and> length (freq t) = length freq0)"
  define E where "E = (\<lambda>e. e = OutOfFuel \<or> e = IntOverflow \<and> INT_MAX \<le> nb)"
  have xd: "x_domain fl n heap B B a order freq0 nb delta = repeat (nat order) f s0"
    by (simp add: x_domain_def pq s0_def[symmetric] root_loop_repeat f_def)
  have rep: "(\<exists>s'. repeat (nat order) f s0 = Inr s' \<and> I (nat order) s') \<or>
        (\<exists>e. repeat (nat order) f s0 = Inl e \<and> E e)"
  proof (rule repeat_cases)
    show "I 0 s0" by (simp add: I_def s0_def)
  next
    fix k t assume k: "k < nat order" and It: "I k t"
    show "(\<exists>t'. f k t = Inr t' \<and> I (Suc k) t') \<or> (\<exists>e. f k t = Inl e \<and> E e)"
    proof (cases "f k t")
      case (Inr t')
      from root_step_roots [OF Inr [unfolded f_def]] It show ?thesis
        by (auto simp: Inr I_def)
    next
      case (Inl e)
      have "order div 2 + 1 \<le> int (length P)" "order div 2 + 1 \<le> int (length Q)"
        using assms(1) len lenB by simp_all
      moreover have "int k < int (length (freq t))" using k It assms(4) by (simp add: I_def)
      ultimately have "E e"
        using root_step_error [OF Inl [unfolded f_def]] assms(1) by (auto simp: E_def)
      then show ?thesis using Inl by simp
    qed
  qed
  have unf: "lpc_to_lsp fl n heap a order freq0 nb delta =
      (case repeat (nat order) f s0 of Inl e \<Rightarrow> Inl e
       | Inr s \<Rightarrow> Inr (roots s, map (acosf fl) (freq s)))"
  proof (cases "repeat (nat order) f s0")
    case (Inl e)
    then show ?thesis using assms(2) by (simp add: lpc_to_lsp_def assms(5) xd)
  next
    case (Inr s)
    then have "I (nat order) s" using rep by auto
    then have "int (length (freq s)) = order" using assms(4) by (simp add: I_def)
    then have "to_radians fl 0 order (freq s) = Inr (map (acosf fl) (freq s))"
      by (rule to_radians_map)
    then show ?thesis using assms(2) Inr by (simp add: lpc_to_lsp_def assms(5) xd)
  qed
  have er: "e = OutOfFuel \<or> e = IntOverflow \<and> INT_MAX \<le> nb"
    if "lpc_to_lsp fl n heap a order freq0 nb delta = Inl e" for e
    using that rep unfolding unf by (auto simp: E_def split: sum.splits)
  have ok: "0 \<le> r \<and> r \<le> order \<and> length g = nat order"
    if "lpc_to_lsp fl n heap a order freq0 nb delta = Inr (r, g)" for r g
    using that rep assms(1,4) unfolding unf by (auto simp: I_def split: sum.splits)
  show ?thesis
    using pq sp unf er ok unfolding f_def s0_def by blast
qed

text \<open>
  In single precision a grid step below the resolution at \<open>1\<close> changes nothing: for
  \<open>delta = 2\<^sup>-\<^sup>3\<^sup>0\<close> the difference \<open>1 - delta\<close> is rounded to \<open>1\<close>, and where the polynomial has
  no zero at \<open>1\<close> the search stays in one state, whatever the fuel.
\<close>

lemma grid_stuck:
  "grid fl32 n heap_ok (2 # 4 # cs) 2 nb (1 / 1073741824) j
     \<lparr>xl = 1, xr = 1, xm = 0, psuml = 6, roots = 0, flag = True, freq = f\<rparr> = Inl OutOfFuel"
proof (induction n)
  case 0
  show ?case by (simp add: grid.simps)
next
  case (Suc n)
  show ?case
    by (subst grid.simps) (simp add: cheb_order23 fl32_eval Suc.IH)
qed

lemma lpc_to_lsp_stuck:
  "lpc_to_lsp fl32 n heap_ok [1, 5, 0] 2 [Some 0, Some 0] 1 (1 / 1073741824) = Inl OutOfFuel"
  by (cases n) (simp_all add: run_simps grid_stuck)

lemmas bisect_overflow_eval = bisect_overflow [unfolded INT_MAX_def]


text \<open>
  Claim C9, as amended. In single precision, for every grid step \<open>delta\<close> above
  \<open>(1 + delta) / 2\<^sup>2\<^sup>4\<close> (every \<open>delta \<ge> 2\<^sup>-\<^sup>2\<^sup>3\<close> is) and every \<open>nb < INT_MAX\<close>,
  \<^verbatim>\<open>lpc_to_lsp\<close> terminates on every input. A grid step lowers \<open>xl\<close> by at least
  \<open>delta' = delta - (1 + delta) / 2\<^sup>2\<^sup>4\<close> (\<open>step32 delta\<close>), so \<open>\<lfloor>2 / delta'\<rfloor> + 1\<close> runs of
  the body of the grid search are enough for each root index: with that much fuel the
  result is never \<open>OutOfFuel\<close>, and it is a returned value when \<open>2 \<le> order < INT_MAX\<close> and
  the arrays have \<open>order + 1\<close> and \<open>order\<close> entries. The outer loop runs its body \<open>order\<close>
  times and a bisection runs its body \<open>nb + 1\<close> times.
\<close>

theorem lpc_to_lsp_terminates:
  "(0 < step32 delta \<longrightarrow>
      lpc_to_lsp fl32 (Suc (nat \<lfloor>2 / step32 delta\<rfloor>)) heap a order freq0 nb delta \<noteq> Inl OutOfFuel) \<and>
   (0 < step32 delta \<and> nb < INT_MAX \<and> 2 \<le> order \<and> order < INT_MAX \<and>
    order + 1 \<le> int (length a) \<and> order \<le> int (length freq0) \<longrightarrow>
      (\<exists>r f. lpc_to_lsp fl32 (Suc (nat \<lfloor>2 / step32 delta\<rfloor>)) heap a order freq0 nb delta =
         Inr (r, f))) \<and>
   root_loop fl n heap P Q order nb delta 0 s =
     repeat (nat order) (\<lambda>j. root_step fl n heap P Q order nb delta (int j)) s \<and>
   (nb < INT_MAX \<longrightarrow>
      bisect fl heap pt order 0 nb s = repeat (nat (nb + 1)) (\<lambda>k. bisect_step fl heap pt order) s)"
proof (intro conjI impI)
  assume c: "0 < step32 delta"
  then have d: "0 \<le> delta" by (simp add: step32_def)
  from lpc_to_lsp_cases[OF is_rounding_fl32 steps_down_fl32 [OF c] d, of heap a order freq0 nb]
  show "lpc_to_lsp fl32 (Suc (nat \<lfloor>2 / step32 delta\<rfloor>)) heap a order freq0 nb delta \<noteq> Inl OutOfFuel"
    by auto
next
  assume a: "0 < step32 delta \<and> nb < INT_MAX \<and> 2 \<le> order \<and> order < INT_MAX \<and>
    order + 1 \<le> int (length a) \<and> order \<le> int (length freq0)"
  then have c: "0 < step32 delta" and d: "0 \<le> delta" by (simp_all add: step32_def)
  from lpc_to_lsp_cases[OF is_rounding_fl32 steps_down_fl32 [OF c] d, of heap a order freq0 nb] a
  show "\<exists>r f. lpc_to_lsp fl32 (Suc (nat \<lfloor>2 / step32 delta\<rfloor>)) heap a order freq0 nb delta = Inr (r, f)"
    by auto
next
  show "root_loop fl n heap P Q order nb delta 0 s =
     repeat (nat order) (\<lambda>j. root_step fl n heap P Q order nb delta (int j)) s"
    using root_loop_repeat[of 0 fl n heap P Q order nb delta s] by simp
next
  assume "nb < INT_MAX"
  then show "bisect fl heap pt order 0 nb s = repeat (nat (nb + 1)) (\<lambda>k. bisect_step fl heap pt order) s"
    using bisect_repeat[of nb fl heap pt order 0 s] by simp
qed

theorem lpc_to_lsp_terminates_witness:
  "0 < step32 (1 / 2) \<and> (1::int) < INT_MAX \<and> (2::int) \<le> 2 \<and> (2::int) < INT_MAX \<and>
   2 + 1 \<le> int (length [1, 5, 0 :: real]) \<and> 2 \<le> int (length [Some 0, Some (0::real)]) \<and>
   lpc_to_lsp fl32 (Suc (nat \<lfloor>2 / step32 (1 / 2)\<rfloor>)) heap_ok [1, 5, 0] 2 [Some 0, Some 0] 1 (1 / 2)
     \<noteq> Inl OutOfFuel \<and>
   (\<exists>r f. lpc_to_lsp fl32 (Suc (nat \<lfloor>2 / step32 (1 / 2)\<rfloor>)) heap_ok [1, 5, 0] 2 [Some 0, Some 0] 1
             (1 / 2) = Inr (r, f))"
  using lpc_to_lsp_terminates [where delta = "1 / 2" and heap = heap_ok and a = "[1, 5, 0]"
      and order = 2 and ?freq0.0 = "[Some 0, Some 0]" and nb = 1]
  by (simp add: step32_def INT_MAX_def)

text \<open>
  The claim as stated fails in four ways. The bound \<open>\<lceil>2 / delta\<rceil>\<close> is one short: for
  \<open>a = [1, 5, 0]\<close>, whose polynomial \<open>2x + 4\<close> of index \<open>0\<close> has no sign change, and
  \<open>delta = 1/2\<close> the loop, whose test \<open>xr \<ge> -1\<close> still holds at \<open>xr = -1\<close>, takes the five
  steps down to \<open>-3/2\<close>. Rounding adds steps: for the float \<open>delta = 11184811 / 2\<^sup>2\<^sup>4\<close>, just
  above \<open>2/3\<close>, the third difference \<open>-1 - 2\<^sup>-\<^sup>2\<^sup>4\<close> is rounded to \<open>-1\<close> and a fourth step is
  taken, where \<open>\<lceil>2 / delta\<rceil> = \<lfloor>2 / delta\<rfloor> + 1 = 3\<close>. For \<open>delta = 2\<^sup>-\<^sup>3\<^sup>0 > 0\<close> the loop does
  not end: \<open>2\<^sup>3\<^sup>1 = \<lceil>2 / delta\<rceil>\<close> runs of its body are not enough (\<open>lpc_to_lsp_stuck\<close>: no
  number is). And for \<open>nb = INT_MAX\<close> the bisection loop is not left by its test.
\<close>

theorem grid_steps_counterexample:
  "lpc_to_lsp fl32 4 heap_ok [1, 5, 0] 2 [Some 0, Some 0] 1 (1 / 2) = Inl OutOfFuel \<and>
   nat \<lceil>2 / (1 / 2 :: real)\<rceil> = 4 \<and>
   lpc_to_lsp fl32 3 heap_ok [1, 5, 0] 2 [Some 0, Some 0] 1 (11184811 / 16777216) = Inl OutOfFuel \<and>
   fl32 (11184811 / 16777216) = 11184811 / 16777216 \<and>
   nat \<lceil>2 / (11184811 / 16777216 :: real)\<rceil> = 3 \<and>
   lpc_to_lsp fl32 (2 ^ 31) heap_ok [1, 5, 0] 2 [Some 0, Some 0] 1 (1 / 1073741824) = Inl OutOfFuel \<and>
   nat \<lceil>2 / (1 / 1073741824 :: real)\<rceil> = 2 ^ 31 \<and>
   lpc_to_lsp fl32 5 heap_ok [1, 1 / 2, - 3 / 4] 2 [Some 0, Some 0] INT_MAX (1 / 2) = Inl IntOverflow"
proof -
  have "lpc_to_lsp fl32 4 heap_ok [1, 5, 0] 2 [Some 0, Some 0] 1 (1 / 2) = Inl OutOfFuel"
    by (simp add: run_simps)
  moreover have "lpc_to_lsp fl32 3 heap_ok [1, 5, 0] 2 [Some 0, Some 0] 1 (11184811 / 16777216) =
      Inl OutOfFuel"
    by (simp add: run_simps)
  moreover have "fl32 (11184811 / 16777216) = 11184811 / 16777216"
    by (simp add: fl32_eval)
  moreover have "lpc_to_lsp fl32 5 heap_ok [1, 1 / 2, - 3 / 4] 2 [Some 0, Some 0] INT_MAX (1 / 2) =
      Inl IntOverflow"
    by (simp add: lpc_to_lsp_def INT_MAX_def malloc_def heap_ok_def x_domain_def lpc_pq_def
        pq_fill.simps pq_double.simps rd_def wr_def signed_divide_int_def root_loop.simps
        root_step_def grid.simps cheb_order23 eval_nat_numeral fl32_eval bisect_overflow_eval)
  ultimately show ?thesis
    using lpc_to_lsp_stuck [of "2 ^ 31"] by simp
qed

text \<open>
  Claim C6, as amended. \<^verbatim>\<open>lpc_to_lsp\<close> checks neither the parity of \<open>order\<close> nor a length.
  For every odd \<open>order\<close> from \<open>3\<close> to \<open>INT_MAX - 2\<close>, with \<open>order + 1\<close> coefficients and
  \<open>order\<close> cells of \<open>freq\<close>, the call does what it does for an even order: it builds \<open>P'\<close>
  and \<open>Q'\<close> by the recurrence with \<open>order / 2\<close> rounded down, runs the search for the
  indices \<open>0, \<dots>, order - 1\<close> and applies \<^verbatim>\<open>acosf\<close> to all \<open>order\<close> cells; what it returns is
  the root count of that search, between \<open>0\<close> and \<open>order\<close>, and no access is out of bounds.
  In single precision, with \<open>delta\<close> above \<open>(1 + delta) / 2\<^sup>2\<^sup>4\<close> and \<open>nb < INT_MAX\<close>, it does
  return. The only value that reports a failure is \<open>-1\<close>, for a failed allocation, whatever
  the parity, and then \<open>freq\<close> is untouched.
\<close>

theorem odd_order_runs:
  "(order < INT_MAX \<and> malloc heap (order + 1) = None \<longrightarrow>
      lpc_to_lsp fl n heap a order freq0 nb delta = Inr (- 1, freq0)) \<and>
   (odd order \<and> 3 \<le> order \<and> order < INT_MAX \<and> int (length a) = order + 1 \<and>
    int (length freq0) = order \<and> malloc heap (order + 1) = Some B \<longrightarrow>
      (\<exists>P Q. lpc_pq fl a order B B = Inr (P, Q) \<and>
         (\<forall>i. i \<le> nat (order div 2) \<longrightarrow>
            P ! i = doubled fl (nat (order div 2)) (P_spec fl a (nat order)) i \<and>
            Q ! i = doubled fl (nat (order div 2)) (Q_spec fl a (nat order)) i) \<and>
         lpc_to_lsp fl n heap a order freq0 nb delta =
           (case repeat (nat order) (\<lambda>j. root_step fl n heap P Q order nb delta (int j))
                   \<lparr>xl = 1, xr = 0, xm = 0, psuml = 0, roots = 0, flag = True, freq = freq0\<rparr> of
              Inl e \<Rightarrow> Inl e
            | Inr s \<Rightarrow> Inr (roots s, map (acosf fl) (freq s))) \<and>
         (\<forall>e. lpc_to_lsp fl n heap a order freq0 nb delta = Inl e \<longrightarrow>
            e = OutOfFuel \<or> e = IntOverflow \<and> INT_MAX \<le> nb) \<and>
         (\<forall>r f. lpc_to_lsp fl n heap a order freq0 nb delta = Inr (r, f) \<longrightarrow>
            0 \<le> r \<and> r \<le> order \<and> length f = nat order))) \<and>
   (odd order \<and> 3 \<le> order \<and> order < INT_MAX \<and> int (length a) = order + 1 \<and>
    int (length freq0) = order \<and> 0 < step32 delta \<and> nb < INT_MAX \<longrightarrow>
      (\<exists>r f. lpc_to_lsp fl32 (Suc (nat \<lfloor>2 / step32 delta\<rfloor>)) heap a order freq0 nb delta =
         Inr (r, f) \<and> - 1 \<le> r \<and> r \<le> order))"
proof (intro conjI impI)
  assume "order < INT_MAX \<and> malloc heap (order + 1) = None"
  then show "lpc_to_lsp fl n heap a order freq0 nb delta = Inr (- 1, freq0)"
    by (simp add: lpc_to_lsp_def)
next
  assume "odd order \<and> 3 \<le> order \<and> order < INT_MAX \<and> int (length a) = order + 1 \<and>
    int (length freq0) = order \<and> malloc heap (order + 1) = Some B"
  then show "\<exists>P Q. lpc_pq fl a order B B = Inr (P, Q) \<and>
         (\<forall>i. i \<le> nat (order div 2) \<longrightarrow>
            P ! i = doubled fl (nat (order div 2)) (P_spec fl a (nat order)) i \<and>
            Q ! i = doubled fl (nat (order div 2)) (Q_spec fl a (nat order)) i) \<and>
         lpc_to_lsp fl n heap a order freq0 nb delta =
           (case repeat (nat order) (\<lambda>j. root_step fl n heap P Q order nb delta (int j))
                   \<lparr>xl = 1, xr = 0, xm = 0, psuml = 0, roots = 0, flag = True, freq = freq0\<rparr> of
              Inl e \<Rightarrow> Inl e
            | Inr s \<Rightarrow> Inr (roots s, map (acosf fl) (freq s))) \<and>
         (\<forall>e. lpc_to_lsp fl n heap a order freq0 nb delta = Inl e \<longrightarrow>
            e = OutOfFuel \<or> e = IntOverflow \<and> INT_MAX \<le> nb) \<and>
         (\<forall>r f. lpc_to_lsp fl n heap a order freq0 nb delta = Inr (r, f) \<longrightarrow>
            0 \<le> r \<and> r \<le> order \<and> length f = nat order)"
    by (intro lpc_to_lsp_search) simp_all
next
  assume a: "odd order \<and> 3 \<le> order \<and> order < INT_MAX \<and> int (length a) = order + 1 \<and>
    int (length freq0) = order \<and> 0 < step32 delta \<and> nb < INT_MAX"
  then have c: "0 < step32 delta" and d: "0 \<le> delta" by (simp_all add: step32_def)
  from lpc_to_lsp_cases[OF is_rounding_fl32 steps_down_fl32 [OF c] d, of heap a order freq0 nb] a
  show "\<exists>r f. lpc_to_lsp fl32 (Suc (nat \<lfloor>2 / step32 delta\<rfloor>)) heap a order freq0 nb delta =
         Inr (r, f) \<and> - 1 \<le> r \<and> r \<le> order"
    by (auto split: if_splits)
qed

theorem odd_order_runs_witness:
  "odd (3::int) \<and> (3::int) \<le> 3 \<and> (3::int) < INT_MAX \<and>
   int (length [1, 1 / 2, - 3 / 4, 1 / 4 :: real]) = 3 + 1 \<and>
   int (length [Some 0, Some 0, Some (0::real)]) = 3 \<and>
   malloc heap_ok (3 + 1) = Some [0, 0, 0, 0] \<and> 0 < step32 (1 / 2) \<and> (1::int) < INT_MAX \<and>
   (\<exists>P Q. lpc_pq fl32 [1, 1 / 2, - 3 / 4, 1 / 4] 3 [0, 0, 0, 0] [0, 0, 0, 0] = Inr (P, Q) \<and>
      lpc_to_lsp fl32 5 heap_ok [1, 1 / 2, - 3 / 4, 1 / 4] 3 [Some 0, Some 0, Some 0] 1 (1 / 2) =
        (case repeat (nat 3)
                (\<lambda>j. root_step fl32 5 heap_ok P Q 3 1 (1 / 2) (int j))
                \<lparr>xl = 1, xr = 0, xm = 0, psuml = 0, roots = 0, flag = True,
                   freq = [Some 0, Some 0, Some 0]\<rparr> of
           Inl e \<Rightarrow> Inl e
         | Inr s \<Rightarrow> Inr (roots s, map (acosf fl32) (freq s)))) \<and>
   (\<exists>r f. lpc_to_lsp fl32 (Suc (nat \<lfloor>2 / step32 (1 / 2)\<rfloor>)) heap_ok [1, 1 / 2, - 3 / 4, 1 / 4] 3
             [Some 0, Some 0, Some 0] 1 (1 / 2) = Inr (r, f) \<and> - 1 \<le> r \<and> r \<le> 3)"
proof -
  have al: "malloc heap_ok (3 + 1) = Some [0, 0, 0, 0]"
    by (simp add: malloc_def heap_ok_def eval_nat_numeral)
  have hy: "odd (3::int) \<and> (3::int) \<le> 3 \<and> (3::int) < INT_MAX \<and>
    int (length [1, 1 / 2, - 3 / 4, 1 / 4 :: real]) = 3 + 1 \<and>
    int (length [Some 0, Some 0, Some (0::real)]) = 3 \<and> 0 < step32 (1 / 2) \<and> (1::int) < INT_MAX"
    by (simp add: INT_MAX_def step32_def)
  note t = odd_order_runs [where order = 3 and heap = heap_ok and a = "[1, 1 / 2, - 3 / 4, 1 / 4]"
      and ?freq0.0 = "[Some 0, Some 0, Some 0]" and B = "[0, 0, 0, 0]" and nb = 1
      and delta = "1 / 2" and fl = fl32 and n = 5]
  from t hy al have "\<exists>P Q. lpc_pq fl32 [1, 1 / 2, - 3 / 4, 1 / 4] 3 [0, 0, 0, 0] [0, 0, 0, 0] = Inr (P, Q) \<and>
      lpc_to_lsp fl32 5 heap_ok [1, 1 / 2, - 3 / 4, 1 / 4] 3 [Some 0, Some 0, Some 0] 1 (1 / 2) =
        (case repeat (nat 3)
                (\<lambda>j. root_step fl32 5 heap_ok P Q 3 1 (1 / 2) (int j))
                \<lparr>xl = 1, xr = 0, xm = 0, psuml = 0, roots = 0, flag = True,
                   freq = [Some 0, Some 0, Some 0]\<rparr> of
           Inl e \<Rightarrow> Inl e
         | Inr s \<Rightarrow> Inr (roots s, map (acosf fl32) (freq s)))"
    by blast
  moreover from t hy have "\<exists>r f. lpc_to_lsp fl32 (Suc (nat \<lfloor>2 / step32 (1 / 2)\<rfloor>)) heap_ok
             [1, 1 / 2, - 3 / 4, 1 / 4] 3 [Some 0, Some 0, Some 0] 1 (1 / 2) = Inr (r, f) \<and>
             - 1 \<le> r \<and> r \<le> 3"
    by blast
  ultimately show ?thesis using hy al by blast
qed

text \<open>
  The claim as stated fails for \<open>order = 3\<close>: the call is not rejected, it finds two roots
  and converts all three cells of \<open>freq\<close>.
\<close>

theorem odd_order_counterexample:
  "lpc_to_lsp fl32 5 heap_ok [1, 1 / 2, - 3 / 4, 1 / 4] 3 [Some 0, Some 0, Some 0] 1 (1 / 2) =
     Inr (2, [Some (fl32 (arccos (1 / 8))), Some (fl32 (arccos (- 1 / 2))), Some (fl32 (arccos 0))])"
  by (simp add: run_simps)


text \<open>
  Claim C2, as amended. In single precision, for every \<open>delta \<ge> 0\<close> and every input on
  which \<^verbatim>\<open>lpc_to_lsp\<close> returns \<open>order\<close> roots, the outputs are \<open>lsp[i] = acosf(x\<^sub>i)\<close> for
  recorded x-domain roots with \<open>1 \<ge> x\<^sub>0 \<ge> x\<^sub>1 \<ge> \<dots> \<ge> x\<^bsub>order-1\<^esub>\<close>. So \<open>lsp[i] \<le> lsp[i+1]\<close>
  whenever \<open>x\<^bsub>i+1\<^esub> \<ge> -1\<close>, every entry with \<open>x\<^sub>i \<ge> -1\<close> lies within \<open>[0, acosf(-1)]\<close>, the ends
  included, and an entry with \<open>x\<^sub>i < -1\<close>, which the last grid cell allows, is NaN. Neither
  inequality is strict.
\<close>

theorem lsp_increasing:
  assumes "lpc_to_lsp fl32 n heap a order freq0 nb delta = Inr (order, f)"
    and "0 \<le> order" "0 \<le> delta"
  shows "\<exists>xs. length xs = nat order \<and>
           (\<forall>i<nat order. f ! i = acosf fl32 (Some (xs ! i)) \<and> xs ! i \<le> 1) \<and>
           (\<forall>i. Suc i < nat order \<longrightarrow> xs ! Suc i \<le> xs ! i) \<and>
           (\<forall>i<nat order. - 1 \<le> xs ! i \<longrightarrow> (\<exists>t. f ! i = Some t \<and> 0 \<le> t \<and> t \<le> fl32 pi)) \<and>
           (\<forall>i<nat order. xs ! i < - 1 \<longrightarrow> f ! i = None) \<and>
           (\<forall>i. Suc i < nat order \<and> - 1 \<le> xs ! Suc i \<longrightarrow>
              (\<exists>t u. f ! i = Some t \<and> f ! Suc i = Some u \<and> t \<le> u))"
proof -
  note R = is_rounding_fl32
  obtain B where B: "malloc heap (order + 1) = Some B"
    using assms(1,2) by (cases "malloc heap (order + 1)") (auto simp: lpc_to_lsp_def split: if_splits)
  from lpc_to_lsp_parts[OF assms(1) B] obtain s where
    s: "x_domain fl32 n heap B B a order freq0 nb delta = Inr s" "order = roots s"
    "length f = length (freq s)"
    "\<forall>i. i < length f \<longrightarrow> f ! i = (if int i < order then acosf fl32 (freq s ! i) else freq s ! i)"
    by blast
  from x_domain_sorted[OF s(1) s(2)[symmetric] R assms(3)] have
    len: "nat order \<le> length (freq s)"
    and val: "\<forall>i<nat order. \<exists>v. freq s ! i = Some v \<and> v \<le> 1"
    and adj: "\<forall>i. Suc i < nat order \<longrightarrow>
            (\<exists>v w. freq s ! i = Some v \<and> freq s ! Suc i = Some w \<and> w \<le> v)"
    by simp_all
  define xs where "xs = map (\<lambda>i. the (freq s ! i)) [0..<nat order]"
  have x: "freq s ! i = Some (xs ! i)" "xs ! i \<le> 1" if "i < nat order" for i
    using val that by (auto simp: xs_def)
  have fi: "f ! i = acosf fl32 (Some (xs ! i))" if "i < nat order" for i
  proof -
    have "i < length f" "int i < order" using that len s(3) by linarith+
    then show ?thesis using s(4) x(1)[OF that] by simp
  qed
  have dec: "xs ! Suc i \<le> xs ! i" if "Suc i < nat order" for i
    using adj that x(1)[of i] x(1)[of "Suc i"] by fastforce
  have "length xs = nat order" by (simp add: xs_def)
  moreover have "\<forall>i<nat order. f ! i = acosf fl32 (Some (xs ! i)) \<and> xs ! i \<le> 1"
    using fi x by simp
  moreover have "\<forall>i. Suc i < nat order \<longrightarrow> xs ! Suc i \<le> xs ! i" using dec by simp
  moreover have "\<forall>i<nat order. - 1 \<le> xs ! i \<longrightarrow> (\<exists>t. f ! i = Some t \<and> 0 \<le> t \<and> t \<le> fl32 pi)"
    using fi x(2) acosf_range [OF R] by simp
  moreover have "\<forall>i<nat order. xs ! i < - 1 \<longrightarrow> f ! i = None"
    using fi by (simp add: acosf_def)
  moreover have "\<forall>i. Suc i < nat order \<and> - 1 \<le> xs ! Suc i \<longrightarrow>
              (\<exists>t u. f ! i = Some t \<and> f ! Suc i = Some u \<and> t \<le> u)"
  proof (intro allI impI)
    fix i assume i: "Suc i < nat order \<and> - 1 \<le> xs ! Suc i"
    then have "i < nat order" by simp
    from acosf_adjacent[OF R, of "xs ! Suc i" "xs ! i"] i dec x(2)[OF this]
    show "\<exists>t u. f ! i = Some t \<and> f ! Suc i = Some u \<and> t \<le> u"
      using fi[of i] fi[of "Suc i"] by simp
  qed
  ultimately show ?thesis by blast
qed

theorem lsp_increasing_witness:
  "lpc_to_lsp fl32 9 heap_ok [1, 1 / 4, - 1 / 2] 2 [Some 0, Some 0] 0 (1 / 4) =
     Inr (2, [Some (fl32 (arccos (5 / 8))), Some (fl32 (arccos (- 3 / 4)))]) \<and>
   (0::int) \<le> 2 \<and> (0::real) \<le> 1 / 4 \<and>
   (\<exists>xs. length xs = nat 2 \<and>
      (\<forall>i<nat 2. [Some (fl32 (arccos (5 / 8))), Some (fl32 (arccos (- 3 / 4)))] ! i =
           acosf fl32 (Some (xs ! i)) \<and> xs ! i \<le> 1) \<and>
      (\<forall>i. Suc i < nat 2 \<longrightarrow> xs ! Suc i \<le> xs ! i) \<and>
      (\<forall>i<nat 2. - 1 \<le> xs ! i \<longrightarrow>
         (\<exists>t. [Some (fl32 (arccos (5 / 8))), Some (fl32 (arccos (- 3 / 4)))] ! i = Some t \<and>
              0 \<le> t \<and> t \<le> fl32 pi)) \<and>
      (\<forall>i<nat 2. xs ! i < - 1 \<longrightarrow>
         [Some (fl32 (arccos (5 / 8))), Some (fl32 (arccos (- 3 / 4)))] ! i = None) \<and>
      (\<forall>i. Suc i < nat 2 \<and> - 1 \<le> xs ! Suc i \<longrightarrow>
         (\<exists>t u. [Some (fl32 (arccos (5 / 8))), Some (fl32 (arccos (- 3 / 4)))] ! i = Some t \<and>
                [Some (fl32 (arccos (5 / 8))), Some (fl32 (arccos (- 3 / 4)))] ! Suc i = Some u \<and>
                t \<le> u)))"
proof -
  have run: "lpc_to_lsp fl32 9 heap_ok [1, 1 / 4, - 1 / 2] 2 [Some 0, Some 0] 0 (1 / 4) =
     Inr (2, [Some (fl32 (arccos (5 / 8))), Some (fl32 (arccos (- 3 / 4)))])"
    by (simp add: run_simps)
  from lsp_increasing [OF run] run show ?thesis by simp
qed

text \<open>
  The claim as stated fails in three ways. For \<open>a = [1, -2, 1]\<close>, \<open>nb = 1\<close> and
  \<open>delta = 2\<^sup>-\<^sup>3\<^sup>0\<close>, a step that single precision rounds away at \<open>1\<close>, both roots are recorded
  at \<open>x = 1\<close>: the two outputs are \<open>0\<close>, equal and not above \<open>0\<close>. With \<open>nb = -1\<close> no bisection
  assigns \<open>xm\<close>, so both outputs are \<open>acosf(0)\<close>. And for \<open>a = [1, 1/2, -1/2]\<close>, \<open>delta = 3/4\<close>
  and \<open>nb = 0\<close> the second root is recorded at \<open>-5/4\<close> and its output is NaN.
\<close>

theorem lsp_increasing_counterexample:
  "lpc_to_lsp fl32 1 heap_ok [1, - 2, 1] 2 [Some 0, Some 0] 1 (1 / 1073741824) =
     Inr (2, [Some 0, Some 0]) \<and>
   lpc_to_lsp fl32 5 heap_ok [1, 1 / 4, - 1 / 2] 2 [Some 0, Some 0] (- 1) (1 / 2) =
     Inr (2, [Some (fl32 (arccos 0)), Some (fl32 (arccos 0))]) \<and>
   x_domain fl32 3 heap_ok [0, 0, 0] [0, 0, 0] [1, 1 / 2, - 1 / 2] 2 [Some 0, Some 0] 0 (3 / 4) =
     Inr \<lparr>xl = - 5 / 4, xr = - 5 / 4, xm = - 5 / 4, psuml = 1 / 4, roots = 2, flag = False,
          freq = [Some (5 / 8), Some (- 5 / 4)]\<rparr> \<and>
   lpc_to_lsp fl32 3 heap_ok [1, 1 / 2, - 1 / 2] 2 [Some 0, Some 0] 0 (3 / 4) =
     Inr (2, [Some (fl32 (arccos (5 / 8))), None])"
  by (simp add: run_simps)

text \<open>
  Claim C5, as amended. After the root loop every cell \<open>freq[0..order-1]\<close>, recorded or
  not, is replaced by \<^verbatim>\<open>acosf\<close> of its content. The argument is not clamped: a content
  outside \<open>[-1, 1]\<close> becomes NaN. \<open>B\<close> is the buffer that \<^verbatim>\<open>malloc\<close> returned for \<open>P\<close> and
  \<open>Q\<close>.
\<close>

theorem radians_unclamped:
  assumes "lpc_to_lsp fl n heap a order freq0 nb delta = Inr (r, f)"
    and "malloc heap (order + 1) = Some B"
  shows "\<exists>s. x_domain fl n heap B B a order freq0 nb delta = Inr s \<and> r = roots s \<and>
           length f = length (freq s) \<and>
           (\<forall>i. i < length f \<longrightarrow> f ! i = (if int i < order then acosf fl (freq s ! i) else freq s ! i))"
  using assms by (rule lpc_to_lsp_parts)

theorem radians_unclamped_witness:
  "lpc_to_lsp fl32 9 heap_ok [1, 1 / 4, - 1 / 2] 2 [Some 0, Some 0, Some 0] 0 (1 / 4) =
     Inr (2, [Some (fl32 (arccos (5 / 8))), Some (fl32 (arccos (- 3 / 4))), Some 0]) \<and>
   malloc heap_ok (2 + 1) = Some [0, 0, 0] \<and>
   (\<exists>s. x_domain fl32 9 heap_ok [0, 0, 0] [0, 0, 0] [1, 1 / 4, - 1 / 2] 2 [Some 0, Some 0, Some 0] 0
          (1 / 4) = Inr s \<and> 2 = roots s \<and>
        length [Some (fl32 (arccos (5 / 8))), Some (fl32 (arccos (- 3 / 4))), Some (0::real)] =
          length (freq s) \<and>
        (\<forall>i. i < length [Some (fl32 (arccos (5 / 8))), Some (fl32 (arccos (- 3 / 4))), Some (0::real)] \<longrightarrow>
           [Some (fl32 (arccos (5 / 8))), Some (fl32 (arccos (- 3 / 4))), Some 0] ! i =
           (if int i < 2 then acosf fl32 (freq s ! i) else freq s ! i)))"
proof -
  have run: "lpc_to_lsp fl32 9 heap_ok [1, 1 / 4, - 1 / 2] 2 [Some 0, Some 0, Some 0] 0 (1 / 4) =
     Inr (2, [Some (fl32 (arccos (5 / 8))), Some (fl32 (arccos (- 3 / 4))), Some 0])"
    by (simp add: run_simps)
  have al: "malloc heap_ok (2 + 1) = Some [0, 0, 0]"
    by (simp add: malloc_def heap_ok_def eval_nat_numeral)
  from radians_unclamped [OF run al] run al show ?thesis by simp
qed

text \<open>
  With a clamp, the second output for the stable filter \<open>a = [1, 7/16, -7/16]\<close>,
  \<open>delta = 3/4\<close> and \<open>nb = 0\<close> would be \<open>acosf(-1)\<close>: the recorded root is \<open>-5/4\<close>. The code
  returns NaN.
\<close>

theorem radians_clamped_counterexample:
  "x_domain fl32 3 heap_ok [0, 0, 0] [0, 0, 0] [1, 7 / 16, - 7 / 16] 2 [Some 0, Some 0] 0 (3 / 4) =
     Inr \<lparr>xl = - 5 / 4, xr = - 5 / 4, xm = - 5 / 4, psuml = 1 / 8, roots = 2, flag = False,
          freq = [Some (5 / 8), Some (- 5 / 4)]\<rparr> \<and>
   lpc_to_lsp fl32 3 heap_ok [1, 7 / 16, - 7 / 16] 2 [Some 0, Some 0] 0 (3 / 4) =
     Inr (2, [Some (fl32 (arccos (5 / 8))), None]) \<and>
   acosf fl32 (Some (clamp (- 5 / 4))) = Some (fl32 pi)"
  by (simp add: run_simps clamp_def)





section \<open>lsp_to_lpc\<close>

lemma clock_repeat:
  "0 \<le> j \<Longrightarrow> clock fl fr order j s =
     repeat (nat (order + 1 - j)) (\<lambda>i. clock_step fl fr order (j + int i)) s"
proof (induction fl fr order j s rule: clock.induct)
  case (1 fl fr order j s)
  show ?case
  proof (cases "j \<le> order")
    case False
    then show ?thesis by (subst clock.simps) simp
  next
    case True
    then have k: "nat (order + 1 - j) = Suc (nat (order + 1 - (j + 1)))" by linarith
    have shift: "(\<lambda>i. clock_step fl fr order (j + int (Suc i))) =
                 (\<lambda>i. clock_step fl fr order (j + 1 + int i))"
    proof (rule ext)
      fix i :: nat
      have "j + int (Suc i) = j + 1 + int i" by simp
      then show "clock_step fl fr order (j + int (Suc i)) = clock_step fl fr order (j + 1 + int i)"
        by (rule arg_cong)
    qed
    show ?thesis
      unfolding k repeat_Suc_front shift
      using True "1.IH" "1.prems" by (subst clock.simps) (simp split: sum.splits)
  qed
qed

lemma clock_step_xin:
  "clock_step fl fr order j s = Inr s' \<Longrightarrow> xin1 s' = 0 \<and> xin2 s' = 0"
  by (auto simp: clock_step_def split: sum.splits option.splits)

lemma stage_ok:
  assumes "0 \<le> i" "2 * i + 1 < int (length fr)" "4 * i + 3 < int (length (Wp s))"
  shows "\<exists>s'. stage fl fr i s = Inr s' \<and> length (Wp s') = length (Wp s) \<and> ak s' = ak s \<and>
           n4 s' = Some (4 * i + 3)"
  using assms by (simp add: stage_def Let_def)

lemma stages_ok:
  assumes "0 \<le> i" "2 * (order sdiv 2) \<le> int (length fr)" "4 * (order sdiv 2) \<le> int (length (Wp s))"
  shows "\<exists>s'. stages fl fr order i s = Inr s' \<and> length (Wp s') = length (Wp s) \<and> ak s' = ak s \<and>
           (i < order sdiv 2 \<longrightarrow> n4 s' = Some (4 * (order sdiv 2) - 1))"
  using assms
proof (induction fl fr order i s rule: stages.induct)
  case (1 fl fr order i s)
  show ?case
  proof (cases "i < order sdiv 2")
    case False
    then show ?thesis by (subst stages.simps) simp
  next
    case True
    have "\<exists>s'. stage fl fr i s = Inr s' \<and> length (Wp s') = length (Wp s) \<and> ak s' = ak s \<and>
           n4 s' = Some (4 * i + 3)"
      using True "1.prems" by (intro stage_ok) linarith+
    then obtain s1 where s1: "stage fl fr i s = Inr s1" "length (Wp s1) = length (Wp s)"
      "ak s1 = ak s" "n4 s1 = Some (4 * i + 3)" by blast
    have "\<exists>s'. stages fl fr order (i + 1) s1 = Inr s' \<and> length (Wp s') = length (Wp s1) \<and>
           ak s' = ak s1 \<and> (i + 1 < order sdiv 2 \<longrightarrow> n4 s' = Some (4 * (order sdiv 2) - 1))"
      using "1.IH"[OF True s1(1)] "1.prems" s1(2) by simp
    then obtain s' where s': "stages fl fr order (i + 1) s1 = Inr s'"
      "length (Wp s') = length (Wp s1)" "ak s' = ak s1"
      "i + 1 < order sdiv 2 \<longrightarrow> n4 s' = Some (4 * (order sdiv 2) - 1)" by blast
    have unf: "stages fl fr order i s = Inr s'"
      using True by (subst stages.simps) (simp add: s1(1) s'(1))
    have "n4 s' = Some (4 * (order sdiv 2) - 1)"
    proof (cases "i + 1 < order sdiv 2")
      case True
      then show ?thesis using s'(4) by simp
    next
      case False
      then have e: "i + 1 = order sdiv 2" using \<open>i < order sdiv 2\<close> by simp
      then have "stages fl fr order (i + 1) s1 = Inr s1" by (subst stages.simps) simp
      then have "s' = s1" using s'(1) by simp
      then show ?thesis using s1(4) e by simp
    qed
    then show ?thesis using unf s' s1 by simp
  qed
qed

lemma clock_step_ok:
  assumes "2 \<le> order" "order \<le> int (length fr)" "4 * (order div 2) + 2 \<le> int (length (Wp s))"
    and "0 \<le> j" "j < int (length (ak s))"
  shows "\<exists>s'. clock_step fl fr order j s = Inr s' \<and> length (Wp s') = length (Wp s) \<and>
           length (ak s') = length (ak s)"
proof -
  have sd: "order sdiv 2 = order div 2" using assms(1) by (simp add: sdiv2_nonneg)
  have m: "1 \<le> order div 2" using assms(1) by simp
  have "\<exists>s'. stages fl fr order 0 s = Inr s' \<and> length (Wp s') = length (Wp s) \<and> ak s' = ak s \<and>
           (0 < order sdiv 2 \<longrightarrow> n4 s' = Some (4 * (order sdiv 2) - 1))"
    using assms(2,3) by (intro stages_ok) (simp_all add: sd)
  then obtain s1 where s1: "stages fl fr order 0 s = Inr s1" "length (Wp s1) = length (Wp s)"
    "ak s1 = ak s" "n4 s1 = Some (4 * (order div 2) - 1)"
    using m by (auto simp: sd)
  show ?thesis
    using assms(3,4,5) m by (simp add: clock_step_def s1)
qed

lemma clock_states:
  assumes "2 \<le> order" "order \<le> int (length fr)" "4 * (order div 2) + 2 \<le> int (length W)"
    and "order + 1 \<le> int (length ak0)" "k \<le> nat (order + 1)"
  shows "\<exists>s. repeat k (\<lambda>j. clock_step fl fr order (int j)) (lattice_init W ak0) = Inr s \<and>
           length (Wp s) = length W \<and> length (ak s) = length ak0"
proof (rule repeat_total_inv
    [where I = "\<lambda>t :: lattice. length (Wp t) = length W \<and> length (ak t) = length ak0"])
  show "length (Wp (lattice_init W ak0)) = length W \<and> length (ak (lattice_init W ak0)) = length ak0"
    by (simp add: lattice_init_def)
next
  fix i and t :: lattice
  assume i: "i < k" and t: "length (Wp t) = length W \<and> length (ak t) = length ak0"
  have "\<exists>s'. clock_step fl fr order (int i) t = Inr s' \<and> length (Wp s') = length (Wp t) \<and>
           length (ak s') = length (ak t)"
    using assms i t by (intro clock_step_ok) simp_all
  then show "\<exists>t'. clock_step fl fr order (int i) t = Inr t' \<and>
      length (Wp t') = length W \<and> length (ak t') = length ak0"
    using t by auto
qed

lemmas lattice_simps = lsp_to_lpc_def INT_MAX_def malloc_def heap_ok_def cos_fill.simps
  zero_fill.simps clock.simps clock_step_def stages.simps stage_def lattice_init_def rd_def wr_def
  signed_divide_int_def eval_nat_numeral fl32_eval

text \<open>
  Claim C4, as amended. \<open>xin1\<close> and \<open>xin2\<close> hold \<open>1.0\<close> at the start of the first outer
  iteration only. Every iteration ends with \<open>xin1 = xin2 = 0.0\<close>, so both hold \<open>0.0\<close> at the
  start of the iterations \<open>j = 1, \<dots>, order\<close> (and when the loop is left): the filter is
  clocked with a unit impulse. The state at the start of iteration \<open>k\<close> is the one after \<open>k\<close>
  runs of the body; for \<open>order \<ge> 2\<close> and buffers of the sizes \<^verbatim>\<open>lsp_to_lpc\<close> allocates,
  all \<open>order + 1\<close> iterations are reached.
\<close>

theorem xin_impulse:
  "clock fl fr order 0 (lattice_init W ak0) =
     repeat (nat (order + 1)) (\<lambda>j. clock_step fl fr order (int j)) (lattice_init W ak0) \<and>
   (\<forall>k s. repeat k (\<lambda>j. clock_step fl fr order (int j)) (lattice_init W ak0) = Inr s \<longrightarrow>
      xin1 s = (if k = 0 then 1 else 0) \<and> xin2 s = (if k = 0 then 1 else 0)) \<and>
   (2 \<le> order \<and> order \<le> int (length fr) \<and> 4 * (order div 2) + 2 \<le> int (length W) \<and>
    order + 1 \<le> int (length ak0) \<longrightarrow>
      (\<forall>k\<le>nat (order + 1).
         \<exists>s. repeat k (\<lambda>j. clock_step fl fr order (int j)) (lattice_init W ak0) = Inr s))"
proof (intro conjI allI impI)
  show "clock fl fr order 0 (lattice_init W ak0) =
     repeat (nat (order + 1)) (\<lambda>j. clock_step fl fr order (int j)) (lattice_init W ak0)"
    using clock_repeat[of 0 fl fr order "lattice_init W ak0"] by simp
next
  fix k s assume r: "repeat k (\<lambda>j. clock_step fl fr order (int j)) (lattice_init W ak0) = Inr s"
  have "xin1 s = (if k = 0 then 1 else 0) \<and> xin2 s = (if k = 0 then 1 else 0)"
  proof (cases k)
    case 0
    then show ?thesis using r by (auto simp: lattice_init_def)
  next
    case (Suc k')
    then obtain t where "clock_step fl fr order (int k') t = Inr s"
      using r by (auto split: sum.splits)
    then show ?thesis using clock_step_xin Suc by simp
  qed
  then show "xin1 s = (if k = 0 then 1 else 0)" "xin2 s = (if k = 0 then 1 else 0)" by simp_all
next
  fix k
  assume "2 \<le> order \<and> order \<le> int (length fr) \<and> 4 * (order div 2) + 2 \<le> int (length W) \<and>
    order + 1 \<le> int (length ak0)" and "k \<le> nat (order + 1)"
  then show "\<exists>s. repeat k (\<lambda>j. clock_step fl fr order (int j)) (lattice_init W ak0) = Inr s"
    using clock_states[of order fr W ak0 k fl] by blast
qed

theorem xin_impulse_witness:
  "repeat 1 (\<lambda>j. clock_step fl32 [1, 1] 2 (int j)) (lattice_init [0, 0, 0, 0, 0, 0, 0, 0, 0, 0] [0, 0, 0]) =
     Inr \<lparr>Wp = [1, 0, 1, 0, 1, 1, 0, 0, 0, 0], xin1 = 0, xin2 = 0, n4 = Some 3, ak = [1, 0, 0]\<rparr> \<and>
   xin1 \<lparr>Wp = [1, 0, 1, 0, 1, 1, 0, 0, 0, 0], xin1 = 0, xin2 = 0, n4 = Some 3, ak = [1, 0, 0]\<rparr> =
     (if (1::nat) = 0 then 1 else 0) \<and>
   xin2 \<lparr>Wp = [1, 0, 1, 0, 1, 1, 0, 0, 0, 0], xin1 = 0, xin2 = 0, n4 = Some 3, ak = [1, 0, 0]\<rparr> =
     (if (1::nat) = 0 then 1 else 0) \<and>
   (2::int) \<le> 2 \<and> 2 \<le> int (length [1, 1 :: real]) \<and>
   4 * (2 div 2) + 2 \<le> int (length [0, 0, 0, 0, 0, 0, 0, 0, 0, 0 :: real]) \<and>
   2 + 1 \<le> int (length [0, 0, 0 :: real]) \<and> (3::nat) \<le> nat (2 + 1) \<and>
   (\<exists>s. repeat 3 (\<lambda>j. clock_step fl32 [1, 1] 2 (int j))
          (lattice_init [0, 0, 0, 0, 0, 0, 0, 0, 0, 0] [0, 0, 0]) = Inr s)"
proof -
  have run: "repeat 1 (\<lambda>j. clock_step fl32 [1, 1] 2 (int j))
      (lattice_init [0, 0, 0, 0, 0, 0, 0, 0, 0, 0] [0, 0, 0]) =
     Inr \<lparr>Wp = [1, 0, 1, 0, 1, 1, 0, 0, 0, 0], xin1 = 0, xin2 = 0, n4 = Some 3, ak = [1, 0, 0]\<rparr>"
    by (simp add: lattice_simps)
  note t = xin_impulse [of fl32 "[1, 1]" 2 "[0, 0, 0, 0, 0, 0, 0, 0, 0, 0]" "[0, 0, 0]"]
  from t have "\<forall>k\<le>nat (2 + 1). \<exists>s. repeat k (\<lambda>j. clock_step fl32 [1, 1] 2 (int j))
          (lattice_init [0, 0, 0, 0, 0, 0, 0, 0, 0, 0] [0, 0, 0]) = Inr s"
    by simp
  then have "\<exists>s. repeat 3 (\<lambda>j. clock_step fl32 [1, 1] 2 (int j))
          (lattice_init [0, 0, 0, 0, 0, 0, 0, 0, 0, 0] [0, 0, 0]) = Inr s"
    by simp
  with t run show ?thesis by simp
qed

text \<open>
  The claim as stated fails at the second iteration. For \<open>order = 2\<close> and \<open>lsp = [0, 0]\<close>,
  whose cosines are \<open>[1, 1]\<close>, the first iteration leaves \<open>xin1 = xin2 = 0\<close>; the call returns
  \<open>ak = [1, -2, 1]\<close>.
\<close>

theorem xin_one_counterexample:
  "clock_step fl32 [1, 1] 2 0 (lattice_init [0, 0, 0, 0, 0, 0, 0, 0, 0, 0] [0, 0, 0]) =
     Inr \<lparr>Wp = [1, 0, 1, 0, 1, 1, 0, 0, 0, 0], xin1 = 0, xin2 = 0, n4 = Some 3, ak = [1, 0, 0]\<rparr> \<and>
   lsp_to_lpc fl32 heap_ok [0, 0] [0, 0, 0] 2 = Inr [1, - 2, 1]"
  by (simp add: lattice_simps)


section \<open>The round trip for order 2\<close>













text \<open>
  A filter \<open>1 + a\<^sub>1 z\<^sup>-\<^sup>1 + a\<^sub>2 z\<^sup>-\<^sup>2\<close> with \<open>a\<^sub>1\<^sup>2 < 4 a\<^sub>2\<close> and \<open>a\<^sub>2 < 1\<close> is stable: its two roots
  are conjugate and the square of their modulus is \<open>a\<^sub>2\<close>.
\<close>

lemma quadratic_roots_inside:
  fixes a1 a2 :: real and z :: complex
  assumes "z\<^sup>2 + of_real a1 * z + of_real a2 = 0" "a1\<^sup>2 < 4 * a2" "a2 < 1"
  shows "cmod z < 1"
proof -
  define x where "x = Re z"
  define y where "y = Im z"
  have re: "x\<^sup>2 - y\<^sup>2 + a1 * x + a2 = 0"
    using arg_cong[OF assms(1), of Re] by (simp add: x_def y_def power2_eq_square)
  have im: "2 * x * y + a1 * y = 0"
    using arg_cong[OF assms(1), of Im] by (simp add: x_def y_def power2_eq_square algebra_simps)
  have "y \<noteq> 0"
  proof
    assume "y = 0"
    then have "x\<^sup>2 + a1 * x + a2 = 0" using re by simp
    then have "(2 * x + a1)\<^sup>2 = a1\<^sup>2 - 4 * a2" by (simp add: power2_eq_square algebra_simps)
    moreover have "0 \<le> (2 * x + a1)\<^sup>2" by simp
    ultimately show False using assms(2) by linarith
  qed
  moreover have "(2 * x + a1) * y = 0" using im by (simp add: algebra_simps)
  ultimately have "2 * x + a1 = 0" by simp
  then have x: "x = - a1 / 2" by simp
  have "x\<^sup>2 + y\<^sup>2 = a2" using re unfolding x by (simp add: power2_eq_square algebra_simps)
  then have "(cmod z)\<^sup>2 = a2" by (simp add: cmod_power2 x_def y_def)
  then have "(cmod z)\<^sup>2 < 1\<^sup>2" using assms(3) by simp
  then show ?thesis by (simp add: power2_less_imp_less)
qed

lemma round_trip_filter_stable:
  fixes z :: complex
  assumes "z\<^sup>2 + of_real (- 32383 / 16384) * z + of_real (520161 / 524288) = 0"
  shows "cmod z < 1"
  using assms by (rule quadratic_roots_inside) (simp_all add: power2_eq_square)






end
